theory Spec2Isabelle
  imports Main "HOL-Library.Sublist"
begin

section \<open>Data model of \<^verbatim>\<open>src/execution/IncrementalPublisher.js\<close>\<close>

text \<open>
  The publisher works on mutable JavaScript objects that are shared by reference: a record
  sits in its parent's \<^verbatim>\<open>children\<close> set, in \<^verbatim>\<open>_pending\<close>, in \<^verbatim>\<open>_released\<close> and in the
  hands of the executor at the same time.  The model therefore keeps an explicit heap: a
  reference is a natural number, the heap maps references to the fields of the object, and
  \<open>nextRef\<close> is the allocation counter (every \<^verbatim>\<open>new\<close> takes the next reference).
  Records come into being through \<^verbatim>\<open>prepareNewDeferredFragmentRecord\<close> and
  \<^verbatim>\<open>prepareNewStreamItemsRecord\<close> only.

  A JavaScript \<^verbatim>\<open>Set\<close> iterates in insertion order and holds no element twice; it is modelled
  by a list with \<open>set_add\<close> (append unless present) and \<open>set_delete\<close>.
\<close>

type_synonym ref = nat
type_synonym iter = nat

datatype segment = Key string | Index nat

datatype json = JNull | JBool bool | JNum int | JStr string
  | JArr "json list" | JObj "(string \<times> json) list"

datatype kind = DeferredFragment | StreamItems

record incrementalDataRecord =
  kind :: kind
  label :: "string option"
  path :: "segment list"
  parentContext :: "ref option"
  asyncIterator :: "iter option"
  errors :: "string list"
  children :: "ref list"
  isCompleted :: bool
  data :: json
  items :: "json list option"
  isCompletedAsyncIterator :: bool

text \<open>
  The options object of the two constructors.  \<open>o_path\<close> is the array that
  \<^verbatim>\<open>pathToArray(opts.path)\<close> returns (\<^verbatim>\<open>jsutils/Path.js\<close> is not part of the sources, so the
  array is taken as the input).
\<close>

record opts =
  o_label :: "string option"
  o_path :: "segment list"
  o_parentContext :: "ref option"
  o_asyncIterator :: "iter option"

text \<open>\<^verbatim>\<open>class DeferredFragmentRecord\<close> and \<^verbatim>\<open>class StreamItemsRecord\<close>: the constructors.\<close>

definition DeferredFragmentRecord :: "opts \<Rightarrow> incrementalDataRecord" where
  "DeferredFragmentRecord opt =
     \<lparr>kind = DeferredFragment, label = o_label opt, path = o_path opt,
      parentContext = o_parentContext opt, asyncIterator = None, errors = [],
      children = [], isCompleted = False, data = JNull, items = None,
      isCompletedAsyncIterator = False\<rparr>"

definition StreamItemsRecord :: "opts \<Rightarrow> incrementalDataRecord" where
  "StreamItemsRecord opt =
     \<lparr>kind = StreamItems, label = o_label opt, path = o_path opt,
      parentContext = o_parentContext opt, asyncIterator = o_asyncIterator opt, errors = [],
      children = [], isCompleted = False, data = JNull, items = None,
      isCompletedAsyncIterator = False\<rparr>"

definition isStreamItemsRecord :: "incrementalDataRecord \<Rightarrow> bool" where
  "isStreamItemsRecord r = (kind r = StreamItems)"

text \<open>
  What \<^verbatim>\<open>asyncIterator.return\<close> of an external source is: absent; a method that returns a
  promise which resolves; a method that returns a promise which rejects with an error (the
  number is the time at which that promise settles, which orders the rejections of several
  promises); a method that throws an error synchronously; a method that returns a value
  which is no promise.  The method behaves the same at every call.
\<close>

datatype return_method =
    NoReturn
  | Resolves
  | Rejects nat string
  | Throws string
  | NonPromise

type_synonym env = "iter \<Rightarrow> return_method"

text \<open>
  The state of one publisher.  \<open>signalled\<close> numbers the promise currently held in
  \<^verbatim>\<open>this._signalled\<close>: \<^verbatim>\<open>_trigger\<close> resolves it and installs the next one, so a promise is
  resolved exactly when its number is below \<open>signalled\<close>.  \<open>returned\<close> lists the calls of
  \<^verbatim>\<open>return()\<close> made on external sources, oldest first.  \<open>isDone\<close> is the variable of the
  closure that \<^verbatim>\<open>subscribe()\<close> creates (one subscription is modelled).
\<close>

record publisher =
  heap :: "ref \<Rightarrow> incrementalDataRecord"
  nextRef :: nat
  initialChildren :: "ref list"
  released :: "ref list"
  pending :: "ref list"
  signalled :: nat
  returned :: "iter list"
  isDone :: bool

definition set_add :: "'a \<Rightarrow> 'a list \<Rightarrow> 'a list" where
  "set_add x xs = (if x \<in> set xs then xs else xs @ [x])"

definition set_delete :: "'a \<Rightarrow> 'a list \<Rightarrow> 'a list" where
  "set_delete x xs = removeAll x xs"

definition blank :: incrementalDataRecord where
  "blank = DeferredFragmentRecord \<lparr>o_label = None, o_path = [], o_parentContext = None,
                                   o_asyncIterator = None\<rparr>"

text \<open>The constructor of \<^verbatim>\<open>IncrementalPublisher\<close> (and a fresh subscription).\<close>

definition init :: publisher where
  "init = \<lparr>heap = (\<lambda>_. blank), nextRef = 0, initialChildren = [], released = [],
           pending = [], signalled = 0, returned = [], isDone = False\<rparr>"

section \<open>Pending/released tracker\<close>

definition hasNext :: "publisher \<Rightarrow> bool" where
  "hasNext s = (length (pending s) > 0)"

definition trigger :: "publisher \<Rightarrow> publisher" where
  "trigger s = s\<lparr>signalled := Suc (signalled s)\<rparr>"

definition introduce :: "ref \<Rightarrow> publisher \<Rightarrow> publisher" where
  "introduce item s = s\<lparr>pending := set_add item (pending s)\<rparr>"

definition release :: "ref \<Rightarrow> publisher \<Rightarrow> publisher" where
  "release item s =
     (if item \<in> set (pending s)
      then trigger (s\<lparr>released := set_add item (released s)\<rparr>)
      else s)"

definition push :: "ref \<Rightarrow> publisher \<Rightarrow> publisher" where
  "push item s =
     trigger (s\<lparr>released := set_add item (released s),
                pending := set_add item (pending s)\<rparr>)"

definition delete :: "ref \<Rightarrow> publisher \<Rightarrow> publisher" where
  "delete item s =
     trigger (s\<lparr>released := set_delete item (released s),
                pending := set_delete item (pending s)\<rparr>)"

section \<open>Record creation and completion\<close>

definition prepareNewDeferredFragmentRecord :: "opts \<Rightarrow> publisher \<Rightarrow> ref \<times> publisher" where
  "prepareNewDeferredFragmentRecord opt s =
     (let r = nextRef s;
          s1 = s\<lparr>heap := (heap s)(r := DeferredFragmentRecord opt), nextRef := Suc r\<rparr>
      in (r, case o_parentContext opt of
               Some p \<Rightarrow>
                 s1\<lparr>heap := (heap s1)(p := (heap s1 p)\<lparr>children := set_add r (children (heap s1 p))\<rparr>)\<rparr>
             | None \<Rightarrow> s1\<lparr>initialChildren := set_add r (initialChildren s1)\<rparr>))"

definition prepareNewStreamItemsRecord :: "opts \<Rightarrow> publisher \<Rightarrow> ref \<times> publisher" where
  "prepareNewStreamItemsRecord opt s =
     (let r = nextRef s;
          s1 = s\<lparr>heap := (heap s)(r := StreamItemsRecord opt), nextRef := Suc r\<rparr>
      in (r, case o_parentContext opt of
               Some p \<Rightarrow>
                 s1\<lparr>heap := (heap s1)(p := (heap s1 p)\<lparr>children := set_add r (children (heap s1 p))\<rparr>)\<rparr>
             | None \<Rightarrow> s1\<lparr>initialChildren := set_add r (initialChildren s1)\<rparr>))"

definition completeDeferredFragmentRecord :: "ref \<Rightarrow> json \<Rightarrow> publisher \<Rightarrow> publisher" where
  "completeDeferredFragmentRecord r d s =
     release r (s\<lparr>heap := (heap s)(r := (heap s r)\<lparr>data := d, isCompleted := True\<rparr>)\<rparr>)"

definition completeStreamItemsRecord :: "ref \<Rightarrow> json list option \<Rightarrow> publisher \<Rightarrow> publisher" where
  "completeStreamItemsRecord r its s =
     release r (s\<lparr>heap := (heap s)(r := (heap s r)\<lparr>items := its, isCompleted := True\<rparr>)\<rparr>)"

definition setIsCompletedAsyncIterator :: "ref \<Rightarrow> publisher \<Rightarrow> publisher" where
  "setIsCompletedAsyncIterator r s =
     s\<lparr>heap := (heap s)(r := (heap s r)\<lparr>isCompletedAsyncIterator := True\<rparr>)\<rparr>"

definition addFieldError :: "ref \<Rightarrow> string \<Rightarrow> publisher \<Rightarrow> publisher" where
  "addFieldError r e s =
     s\<lparr>heap := (heap s)(r := (heap s r)\<lparr>errors := errors (heap s r) @ [e]\<rparr>)\<rparr>"

section \<open>Publication engine\<close>

definition publish :: "ref \<Rightarrow> publisher \<Rightarrow> publisher" where
  "publish r s = (if isCompleted (heap s r) then push r s else introduce r s)"

definition publishInitial :: "publisher \<Rightarrow> publisher" where
  "publishInitial s = fold publish (initialChildren s) s"

text \<open>One entry of a frame, and the frame itself (the value \<^verbatim>\<open>_getIncrementalResult\<close> returns).\<close>

datatype payload = Data json | Items "json list option"

record incrementalResult =
  res_payload :: payload
  res_path :: "segment list"
  res_label :: "string option"
  res_errors :: "string list option"

record subsequentResult =
  incremental :: "incrementalResult list option"
  res_hasNext :: bool

definition entry :: "incrementalDataRecord \<Rightarrow> incrementalResult" where
  "entry r =
     \<lparr>res_payload = (if isStreamItemsRecord r then Items (items r) else Data (data r)),
      res_path = path r,
      res_label = label r,
      res_errors = (if length (errors r) > 0 then Some (errors r) else None)\<rparr>"

text \<open>
  The loop of \<^verbatim>\<open>_getIncrementalResult\<close> over the completed records: the state, the entries
  collected so far and \<^verbatim>\<open>encounteredCompletedAsyncIterator\<close> are threaded through.
\<close>

fun getIncrementalResult_loop ::
  "ref list \<Rightarrow> publisher \<Rightarrow> incrementalResult list \<Rightarrow> bool
     \<Rightarrow> publisher \<times> incrementalResult list \<times> bool" where
  "getIncrementalResult_loop [] s res enc = (s, res, enc)"
| "getIncrementalResult_loop (r # rs) s res enc =
     (let s1 = fold publish (children (heap s r)) s
      in if isStreamItemsRecord (heap s1 r)
         then (if isCompletedAsyncIterator (heap s1 r)
               then getIncrementalResult_loop rs s1 res True
               else getIncrementalResult_loop rs s1 (res @ [entry (heap s1 r)]) enc)
         else getIncrementalResult_loop rs s1 (res @ [entry (heap s1 r)]) enc)"

definition getIncrementalResult :: "ref list \<Rightarrow> publisher \<Rightarrow> subsequentResult option \<times> publisher" where
  "getIncrementalResult completedRecords s =
     (case getIncrementalResult_loop completedRecords s [] False of
        (s', res, enc) \<Rightarrow>
          (if length res > 0 then Some \<lparr>incremental = Some res, res_hasNext = hasNext s'\<rparr>
           else if enc \<and> \<not> hasNext s' then Some \<lparr>incremental = None, res_hasNext = False\<rparr>
           else None,
           s'))"

section \<open>Cancellation/filter engine\<close>

text \<open>
  \<^verbatim>\<open>_getDescendants\<close> recurses through the \<^verbatim>\<open>children\<close> sets of the heap.  The first argument
  bounds the depth of the recursion; \<open>None\<close> means the bound was hit.
\<close>

fun getDescendants ::
  "nat \<Rightarrow> (ref \<Rightarrow> incrementalDataRecord) \<Rightarrow> ref list \<Rightarrow> ref list \<Rightarrow> ref list option" where
  "getDescendants depth h [] descendants = Some descendants"
| "getDescendants 0 h (child # cs) descendants = None"
| "getDescendants (Suc depth) h (child # cs) descendants =
     (case getDescendants depth h (children (h child)) (set_add child descendants) of
        None \<Rightarrow> None
      | Some descendants' \<Rightarrow> getDescendants (Suc depth) h cs descendants')"

text \<open>\<^verbatim>\<open>testPath[i]\<close>: \<open>None\<close> is \<^verbatim>\<open>undefined\<close>, read past the end of the array.\<close>

definition at :: "'a list \<Rightarrow> nat \<Rightarrow> 'a option" where
  "at xs i = (if i < length xs then Some (xs ! i) else None)"

function matchesPath_from :: "nat \<Rightarrow> segment list \<Rightarrow> segment list \<Rightarrow> bool" where
  "matchesPath_from i testPath basePath =
     (if i < length basePath
      then (if at basePath i \<noteq> at testPath i then False
            else matchesPath_from (Suc i) testPath basePath)
      else True)"
  by pat_completeness auto
termination
  by (relation "measure (\<lambda>(i, testPath, basePath). length basePath - i)") auto

declare matchesPath_from.simps [simp del]

definition matchesPath :: "segment list \<Rightarrow> segment list \<Rightarrow> bool" where
  "matchesPath testPath basePath = matchesPath_from 0 testPath basePath"

text \<open>The body of the \<^verbatim>\<open>for\<close> loop of \<^verbatim>\<open>filter\<close>, for a child that matches the path.\<close>

definition detach :: "ref \<Rightarrow> publisher \<Rightarrow> publisher" where
  "detach child s =
     (let s1 = delete child s
      in case parentContext (heap s1 child) of
           None \<Rightarrow> s1\<lparr>initialChildren := set_delete child (initialChildren s1)\<rparr>
         | Some p \<Rightarrow>
             s1\<lparr>heap := (heap s1)(p := (heap s1 p)\<lparr>children := set_delete child (children (heap s1 p))\<rparr>)\<rparr>)"

fun filter_loop ::
  "segment list \<Rightarrow> ref list \<Rightarrow> publisher \<Rightarrow> iter list \<Rightarrow> publisher \<times> iter list" where
  "filter_loop nullPathArray [] s asyncIterators = (s, asyncIterators)"
| "filter_loop nullPathArray (child # cs) s asyncIterators =
     (if \<not> matchesPath (path (heap s child)) nullPathArray
      then filter_loop nullPathArray cs s asyncIterators
      else
        (let s1 = detach child s
         in filter_loop nullPathArray cs s1
              (if isStreamItemsRecord (heap s1 child)
               then (case asyncIterator (heap s1 child) of
                       Some a \<Rightarrow> set_add a asyncIterators
                     | None \<Rightarrow> asyncIterators)
               else asyncIterators)))"

text \<open>
  A call of \<^verbatim>\<open>return()\<close> that reaches the source \<open>a\<close>.
\<close>

definition request :: "iter \<Rightarrow> publisher \<Rightarrow> publisher" where
  "request a s = s\<lparr>returned := returned s @ [a]\<rparr>"

text \<open>
  \<^verbatim>\<open>asyncIterators.forEach((asyncIterator) => { asyncIterator.return?.().catch(() => {}) })\<close>.
  For each source in turn: without the method nothing is called; otherwise the method is
  called.  A promise it returns gets a handler that catches its rejection, and the loop goes
  on.  If the call throws, the exception leaves the callback, \<^verbatim>\<open>forEach\<close> and \<^verbatim>\<open>filter\<close>, and the
  sources after it are not visited; if the call returns a value that is no promise, the call
  of its missing \<^verbatim>\<open>catch\<close> throws a \<^verbatim>\<open>TypeError\<close> in the same way.  The result is the
  exception thrown, if any, and the state.
\<close>

fun return_each :: "env \<Rightarrow> iter list \<Rightarrow> publisher \<Rightarrow> string option \<times> publisher" where
  "return_each env [] s = (None, s)"
| "return_each env (a # as) s =
     (case env a of
        NoReturn \<Rightarrow> return_each env as s
      | Resolves \<Rightarrow> return_each env as (request a s)
      | Rejects t e \<Rightarrow> return_each env as (request a s)
      | Throws e \<Rightarrow> (Some e, request a s)
      | NonPromise \<Rightarrow> (Some ''TypeError'', request a s))"

text \<open>
  \<^verbatim>\<open>filter(nullPath, erroringIncrementalDataRecord)\<close>, with the array of \<^verbatim>\<open>pathToArray(nullPath)\<close>
  as its first argument.  The depth bound given to \<open>getDescendants\<close> is the number of records
  allocated, which no chain of children exceeds.  \<open>filter_call\<close> is the whole call: the
  exception with which it ends, if it throws, and the state it leaves.  \<open>filter_records\<close> is
  that state alone, whether the call returned or threw.
\<close>

definition filter_call ::
  "env \<Rightarrow> segment list \<Rightarrow> ref option \<Rightarrow> publisher \<Rightarrow> (string option \<times> publisher) option" where
  "filter_call env nullPathArray erroringIncrementalDataRecord s =
     (let cs = (case erroringIncrementalDataRecord of
                  None \<Rightarrow> initialChildren s
                | Some e \<Rightarrow> children (heap s e))
      in case getDescendants (nextRef s) (heap s) cs [] of
           None \<Rightarrow> None
         | Some descendants \<Rightarrow>
             (case filter_loop nullPathArray descendants s [] of
                (s', asyncIterators) \<Rightarrow> Some (return_each env asyncIterators s')))"

definition filter_records ::
  "env \<Rightarrow> segment list \<Rightarrow> ref option \<Rightarrow> publisher \<Rightarrow> publisher option" where
  "filter_records env nullPathArray erroringIncrementalDataRecord s =
     map_option snd (filter_call env nullPathArray erroringIncrementalDataRecord s)"

section \<open>The subscription\<close>

text \<open>
  One pass through the body of the \<^verbatim>\<open>while (true)\<close> loop of \<^verbatim>\<open>_next\<close>: it returns an iterator
  result, or it reaches \<^verbatim>\<open>await this._signalled\<close>; \<open>Await n\<close> names the promise awaited.
\<close>

datatype outcome = Value subsequentResult | Done | Await nat

definition next_pass :: "publisher \<Rightarrow> outcome \<times> publisher" where
  "next_pass s =
     (if isDone s then (Done, s)
      else
        (let s1 = s\<lparr>pending := fold set_delete (released s) (pending s)\<rparr>;
             completed = released s1;
             s2 = s1\<lparr>released := []\<rparr>
         in case getIncrementalResult completed s2 of
              (result, s3) \<Rightarrow>
                (let s4 = (if \<not> hasNext s3 then s3\<lparr>isDone := True\<rparr> else s3)
                 in case result of
                      Some v \<Rightarrow> (Value v, s4)
                    | None \<Rightarrow> (Await (signalled s4), s4))))"

text \<open>
  The loop of \<^verbatim>\<open>returnStreamIterators\<close> over \<^verbatim>\<open>_pending\<close>: \<^verbatim>\<open>return()\<close> is called on the source of
  every stream record that has the method, and what it returns is pushed on \<^verbatim>\<open>promises\<close>.  A
  call that throws ends the loop with its exception.  The result is that exception, if any,
  and the sources called, in the order of the calls.
\<close>

fun returnStreamIterators_calls ::
  "env \<Rightarrow> (ref \<Rightarrow> incrementalDataRecord) \<Rightarrow> ref list \<Rightarrow> string option \<times> iter list" where
  "returnStreamIterators_calls env h [] = (None, [])"
| "returnStreamIterators_calls env h (r # rs) =
     (if isStreamItemsRecord (h r)
      then (case asyncIterator (h r) of
              None \<Rightarrow> returnStreamIterators_calls env h rs
            | Some a \<Rightarrow>
                (case env a of
                   NoReturn \<Rightarrow> returnStreamIterators_calls env h rs
                 | Throws e \<Rightarrow> (Some e, [a])
                 | _ \<Rightarrow>
                     (case returnStreamIterators_calls env h rs of
                        (thrown, promises) \<Rightarrow> (thrown, a # promises))))
      else returnStreamIterators_calls env h rs)"

text \<open>
  \<^verbatim>\<open>await Promise.all(promises)\<close>: it rejects with the rejection that settles first, and it
  fulfils if no promise rejects (a value that is no promise counts as fulfilled).  The
  result is the settling time and the error of that rejection; of two rejections with the
  same time the one called first is taken.
\<close>

fun promise_all :: "env \<Rightarrow> iter list \<Rightarrow> (nat \<times> string) option" where
  "promise_all env [] = None"
| "promise_all env (a # as) =
     (case env a of
        Rejects t e \<Rightarrow>
          (case promise_all env as of
             None \<Rightarrow> Some (t, e)
           | Some (t', e') \<Rightarrow> if t' < t then Some (t', e') else Some (t, e))
      | _ \<Rightarrow> promise_all env as)"

text \<open>
  \<^verbatim>\<open>returnStreamIterators\<close>, an \<^verbatim>\<open>async\<close> function: the promise it returns rejects with the
  exception of the loop, or else with the rejection of \<^verbatim>\<open>Promise.all\<close>; the result is that
  error, if any, and the state.
\<close>

definition returnStreamIterators :: "env \<Rightarrow> publisher \<Rightarrow> string option \<times> publisher" where
  "returnStreamIterators env s =
     (case returnStreamIterators_calls env (heap s) (pending s) of
        (thrown, promises) \<Rightarrow>
          ((case thrown of
              Some e \<Rightarrow> Some e
            | None \<Rightarrow> map_option snd (promise_all env promises)),
           s\<lparr>returned := returned s @ promises\<rparr>))"

text \<open>
  \<^verbatim>\<open>_return\<close> and \<^verbatim>\<open>_throw\<close>: the promise each returns either fulfils with the done signal or
  rejects with an error.
\<close>

datatype settled = Fulfilled_done | Rejected string

definition subscribe_return :: "env \<Rightarrow> publisher \<Rightarrow> settled \<times> publisher" where
  "subscribe_return env s =
     (case returnStreamIterators env (s\<lparr>isDone := True\<rparr>) of
        (Some e, s') \<Rightarrow> (Rejected e, s')
      | (None, s') \<Rightarrow> (Fulfilled_done, s'))"

definition subscribe_throw :: "env \<Rightarrow> string \<Rightarrow> publisher \<Rightarrow> settled \<times> publisher" where
  "subscribe_throw env error s =
     (case returnStreamIterators env (s\<lparr>isDone := True\<rparr>) of
        (Some e, s') \<Rightarrow> (Rejected e, s')
      | (None, s') \<Rightarrow> (Rejected error, s'))"

section \<open>Sessions: sequences of calls\<close>

text \<open>
  The calls the executor and the consumer make on one publisher.  \<open>Next\<close> is one pass of the
  loop of \<^verbatim>\<open>_next\<close> (the start of a pull, or its continuation after the awaited promise has
  resolved).  Every call is one synchronous step of JavaScript, so a session is a list of
  calls.  A session may take a pass at any point, also where the promise of a suspended
  pull is not yet resolved: the sessions include every schedule that JavaScript allows.
\<close>

datatype call =
    PrepareNewDeferredFragmentRecord opts
  | PrepareNewStreamItemsRecord opts
  | CompleteDeferredFragmentRecord ref json
  | CompleteStreamItemsRecord ref "json list option"
  | SetIsCompletedAsyncIterator ref
  | AddFieldError ref string
  | PublishInitial
  | Filter "segment list" "ref option"
  | Next
  | Return
  | Throw string

text \<open>
  What a call hands back.  \<open>Thrown e\<close> is a call that ended with the exception \<open>e\<close>.
  \<open>Pulled batch out\<close> is a pass of \<^verbatim>\<open>_next\<close>: \<open>batch\<close> is the set the pass captured in its local
  \<^verbatim>\<open>released\<close> (empty when the pass returned at \<^verbatim>\<open>isDone\<close>) and \<open>out\<close> is how the pass ended.
\<close>

datatype event =
    Created ref
  | Quiet
  | Thrown string
  | Pulled "ref list" outcome
  | Settled settled

text \<open>
  A call can only pass references to objects that exist: JavaScript has no other
  references.
\<close>

fun refs_ok :: "publisher \<Rightarrow> call \<Rightarrow> bool" where
  "refs_ok s (PrepareNewDeferredFragmentRecord opt) =
     (case o_parentContext opt of None \<Rightarrow> True | Some p \<Rightarrow> p < nextRef s)"
| "refs_ok s (PrepareNewStreamItemsRecord opt) =
     (case o_parentContext opt of None \<Rightarrow> True | Some p \<Rightarrow> p < nextRef s)"
| "refs_ok s (CompleteDeferredFragmentRecord r d) = (r < nextRef s)"
| "refs_ok s (CompleteStreamItemsRecord r its) = (r < nextRef s)"
| "refs_ok s (SetIsCompletedAsyncIterator r) = (r < nextRef s)"
| "refs_ok s (AddFieldError r e) = (r < nextRef s)"
| "refs_ok s (Filter nullPathArray origin) =
     (case origin of None \<Rightarrow> True | Some e \<Rightarrow> e < nextRef s)"
| "refs_ok s c = True"

fun perform :: "env \<Rightarrow> call \<Rightarrow> publisher \<Rightarrow> (event \<times> publisher) option" where
  "perform env (PrepareNewDeferredFragmentRecord opt) s =
     (case prepareNewDeferredFragmentRecord opt s of (r, s') \<Rightarrow> Some (Created r, s'))"
| "perform env (PrepareNewStreamItemsRecord opt) s =
     (case prepareNewStreamItemsRecord opt s of (r, s') \<Rightarrow> Some (Created r, s'))"
| "perform env (CompleteDeferredFragmentRecord r d) s =
     Some (Quiet, completeDeferredFragmentRecord r d s)"
| "perform env (CompleteStreamItemsRecord r its) s =
     Some (Quiet, completeStreamItemsRecord r its s)"
| "perform env (SetIsCompletedAsyncIterator r) s = Some (Quiet, setIsCompletedAsyncIterator r s)"
| "perform env (AddFieldError r e) s = Some (Quiet, addFieldError r e s)"
| "perform env PublishInitial s = Some (Quiet, publishInitial s)"
| "perform env (Filter nullPathArray origin) s =
     (case filter_call env nullPathArray origin s of
        None \<Rightarrow> None
      | Some (None, s') \<Rightarrow> Some (Quiet, s')
      | Some (Some e, s') \<Rightarrow> Some (Thrown e, s'))"
| "perform env Next s =
     (case next_pass s of
        (out, s') \<Rightarrow> Some (Pulled (if isDone s then [] else released s) out, s'))"
| "perform env Return s =
     (case subscribe_return env s of (res, s') \<Rightarrow> Some (Settled res, s'))"
| "perform env (Throw error) s =
     (case subscribe_throw env error s of (res, s') \<Rightarrow> Some (Settled res, s'))"

definition step :: "env \<Rightarrow> call \<Rightarrow> publisher \<Rightarrow> (event \<times> publisher) option" where
  "step env c s = (if refs_ok s c then perform env c s else None)"

text \<open>
  A session from state \<open>s\<close>: the event and the state after every call, or \<open>None\<close> if a call
  was passed a reference to no object or hit the depth bound.
\<close>

fun run :: "env \<Rightarrow> call list \<Rightarrow> publisher \<Rightarrow> (event \<times> publisher) list option" where
  "run env [] s = Some []"
| "run env (c # cs) s =
     (case step env c s of
        None \<Rightarrow> None
      | Some (e, s') \<Rightarrow>
          (case run env cs s' of
             None \<Rightarrow> None
           | Some tr \<Rightarrow> Some ((e, s') # tr)))"

section \<open>Notions used to state the properties\<close>

text \<open>A stream record whose \<^verbatim>\<open>isCompletedAsyncIterator\<close> flag is set (the spec's ``exhausted'').\<close>

definition exhausted :: "incrementalDataRecord \<Rightarrow> bool" where
  "exhausted r = (isStreamItemsRecord r \<and> isCompletedAsyncIterator r)"

text \<open>
  The descendants of the records \<open>cs\<close> in heap \<open>h\<close>: the records of \<open>cs\<close> and, recursively,
  the children of descendants.
\<close>

inductive_set descendants :: "(ref \<Rightarrow> incrementalDataRecord) \<Rightarrow> ref list \<Rightarrow> ref set"
  for h :: "ref \<Rightarrow> incrementalDataRecord" and cs :: "ref list" where
  top: "c \<in> set cs \<Longrightarrow> c \<in> descendants h cs"
| below: "d \<in> descendants h cs \<Longrightarrow> c \<in> set (children (h d)) \<Longrightarrow> c \<in> descendants h cs"

text \<open>The sources of the stream records among \<open>ds\<close>, in the order of \<open>ds\<close>.\<close>

definition collected :: "(ref \<Rightarrow> incrementalDataRecord) \<Rightarrow> ref list \<Rightarrow> iter list" where
  "collected h ds =
     List.map_filter (\<lambda>d. if isStreamItemsRecord (h d) then asyncIterator (h d) else None) ds"

text \<open>The state a session has reached: the state after its last call.\<close>

definition final :: "publisher \<Rightarrow> (event \<times> publisher) list \<Rightarrow> publisher" where
  "final s tr = (if tr = [] then s else snd (last tr))"

text \<open>The state that a session from the initial state ends in (\<open>init\<close> if a call is refused).\<close>

definition state_after :: "env \<Rightarrow> call list \<Rightarrow> publisher" where
  "state_after env cs = (case run env cs init of None \<Rightarrow> init | Some tr \<Rightarrow> final init tr)"

text \<open>
  The shape that every reachable state has: the \<^verbatim>\<open>children\<close> sets form a forest in which a
  child was allocated after its parent and names it in \<^verbatim>\<open>parentContext\<close>, the children of the
  initial result have no \<^verbatim>\<open>parentContext\<close>, \<^verbatim>\<open>_pending\<close> holds existing records, and
  \<^verbatim>\<open>_released\<close> is a subset of \<^verbatim>\<open>_pending\<close>.
\<close>

definition forest :: "publisher \<Rightarrow> bool" where
  "forest s \<longleftrightarrow>
     (\<forall>r < nextRef s. \<forall>c \<in> set (children (heap s r)).
        r < c \<and> c < nextRef s \<and> parentContext (heap s c) = Some r) \<and>
     (\<forall>c \<in> set (initialChildren s). c < nextRef s \<and> parentContext (heap s c) = None) \<and>
     (\<forall>r \<in> set (pending s). r < nextRef s) \<and>
     set (released s) \<subseteq> set (pending s) \<and>
     distinct (pending s) \<and> distinct (released s)"

text \<open>The children of the records \<open>rs\<close>.\<close>

definition childrenOf :: "(ref \<Rightarrow> incrementalDataRecord) \<Rightarrow> ref list \<Rightarrow> ref set" where
  "childrenOf h rs = (\<Union>r \<in> set rs. set (children (h r)))"

text \<open>
  The children set that \<^verbatim>\<open>filter\<close> starts from, and the records the spec says it removes:
  the descendants of the origin whose path has the null path as a prefix.
\<close>

definition origin_children :: "publisher \<Rightarrow> ref option \<Rightarrow> ref list" where
  "origin_children s origin =
     (case origin of None \<Rightarrow> initialChildren s | Some e \<Rightarrow> children (heap s e))"

definition pruned :: "publisher \<Rightarrow> segment list \<Rightarrow> ref option \<Rightarrow> ref set" where
  "pruned s nullPathArray origin =
     {d \<in> descendants (heap s) (origin_children s origin). prefix nullPathArray (path (heap s d))}"

text \<open>
  The part that \<^verbatim>\<open>prepareNewDeferredFragmentRecord\<close> and \<^verbatim>\<open>prepareNewStreamItemsRecord\<close>
  have in common: the new object is allocated and added to its parent's children.
\<close>

definition attach :: "opts \<Rightarrow> incrementalDataRecord \<Rightarrow> publisher \<Rightarrow> publisher" where
  "attach opt new s =
     (let r = nextRef s;
          s1 = s\<lparr>heap := (heap s)(r := new), nextRef := Suc r\<rparr>
      in case o_parentContext opt of
               Some p \<Rightarrow>
                 s1\<lparr>heap := (heap s1)(p := (heap s1 p)\<lparr>children := set_add r (children (heap s1 p))\<rparr>)\<rparr>
             | None \<Rightarrow> s1\<lparr>initialChildren := set_add r (initialChildren s1)\<rparr>)"

text \<open>
  A \<^verbatim>\<open>return\<close> method that hands back a promise, whether it resolves or rejects, or no
  method at all.
\<close>

definition returns_promise :: "return_method \<Rightarrow> bool" where
  "returns_promise m = (case m of Throws e \<Rightarrow> False | NonPromise \<Rightarrow> False | _ \<Rightarrow> True)"

text \<open>
  The batch of a pass, read off its event; the records drained in the course of a trace; and
  the records that contribute an entry to the frame a pass returned.
\<close>

fun drained :: "event \<Rightarrow> ref list" where
  "drained (Pulled batch out) = batch"
| "drained e = []"

definition drained_all :: "(event \<times> publisher) list \<Rightarrow> ref set" where
  "drained_all tr = (\<Union>x \<in> set tr. set (drained (fst x)))"

fun emitted :: "event \<times> publisher \<Rightarrow> ref list" where
  "emitted (Pulled batch (Value v), s) = filter (\<lambda>r. \<not> exhausted (heap s r)) batch"
| "emitted x = []"

text \<open>The batch that a pass of \<^verbatim>\<open>_next\<close> from state \<open>s\<close> captures.\<close>

definition batch_of :: "publisher \<Rightarrow> ref list" where
  "batch_of s = (if isDone s then [] else released s)"

text \<open>
  Invariants of a session, relative to the set \<open>D\<close> of records drained so far and to whether
  \<^verbatim>\<open>publishInitial\<close> has been called (\<open>P\<close>).  \<open>ordered\<close>: the parent of a pending record has
  been drained.  \<open>once\<close>: moreover no drained record is pending, the drained records are closed
  under parents, and a record without parent is pending or drained only after
  \<^verbatim>\<open>publishInitial\<close>.  \<open>attachedTo\<close>: the records held by some children set.
\<close>

definition ordered :: "publisher \<Rightarrow> ref set \<Rightarrow> bool" where
  "ordered s D \<longleftrightarrow>
     (\<forall>r \<in> set (pending s). \<forall>p. parentContext (heap s r) = Some p \<longrightarrow> p \<in> D)"

definition once :: "publisher \<Rightarrow> ref set \<Rightarrow> bool \<Rightarrow> bool" where
  "once s D P \<longleftrightarrow>
     ordered s D \<and>
     set (pending s) \<inter> D = {} \<and>
     (\<forall>r \<in> D. r < nextRef s) \<and>
     (\<forall>r \<in> D. \<forall>p. parentContext (heap s r) = Some p \<longrightarrow> p \<in> D) \<and>
     (\<forall>r \<in> set (pending s) \<union> D. parentContext (heap s r) = None \<longrightarrow> P)"

definition attachedTo :: "publisher \<Rightarrow> ref set" where
  "attachedTo s =
     set (initialChildren s) \<union> (\<Union>p \<in> {..<nextRef s}. set (children (heap s p)))"

text \<open>
  The number of places where a sequence of truth values goes from true to false.
\<close>

fun falls :: "bool list \<Rightarrow> nat" where
  "falls (a # b # bs) = (if a \<and> \<not> b then 1 else 0) + falls (b # bs)"
| "falls bs = 0"

text \<open>The trace of a session from the initial state (empty if a call is refused).\<close>

definition trace_of :: "env \<Rightarrow> call list \<Rightarrow> (event \<times> publisher) list" where
  "trace_of env cs = (case run env cs init of None \<Rightarrow> [] | Some tr \<Rightarrow> tr)"

section \<open>A whole pull\<close>

text \<open>
  \<^verbatim>\<open>_next\<close> as a whole.  A pass that reaches \<^verbatim>\<open>await this._signalled\<close> suspends the pull
  until the promise awaited is resolved, which only a later call can do; \<open>cs\<close> are the calls
  that are made while the pull is in flight, and the pull continues after the first of them
  that resolves the promise.  The result \<open>Await n\<close> says that the pull has not returned when
  the calls are over: it is suspended on promise \<open>n\<close>, which is not resolved.
\<close>

fun await_signalled :: "env \<Rightarrow> nat \<Rightarrow> call list \<Rightarrow> publisher \<Rightarrow> (call list \<times> publisher) option" where
  "await_signalled env n [] s = None"
| "await_signalled env n (c # cs) s =
     (case step env c s of
        None \<Rightarrow> None
      | Some (e, s') \<Rightarrow>
          (if n < signalled s' then Some (cs, s') else await_signalled env n cs s'))"

lemma await_signalled_shorter:
  "await_signalled env n cs s = Some (cs', s') \<Longrightarrow> length cs' < length cs"
  by (induction cs arbitrary: s) (fastforce split: option.splits if_splits)+

function subscribe_next :: "env \<Rightarrow> call list \<Rightarrow> publisher \<Rightarrow> outcome \<times> publisher" where
  "subscribe_next env cs s =
     (case next_pass s of
        (Await n, s') \<Rightarrow>
          (case await_signalled env n cs s' of
             None \<Rightarrow> (Await n, s')
           | Some (cs', s'') \<Rightarrow> subscribe_next env cs' s'')
      | (out, s') \<Rightarrow> (out, s'))"
  by pat_completeness auto
termination
  by (relation "measure (\<lambda>(env, cs, s). length cs)") (auto dest: await_signalled_shorter)

declare subscribe_next.simps [simp del]

section \<open>Concrete sessions\<close>

text \<open>
  A stream record C whose source is exhausted, a deferred record D with a child E; C and D
  have completed, E has not.
\<close>

definition optsC :: opts where
  "optsC = \<lparr>o_label = None, o_path = [Key ''c''], o_parentContext = None,
            o_asyncIterator = Some 0\<rparr>"

definition optsD :: opts where
  "optsD = \<lparr>o_label = Some ''d'', o_path = [Key ''d''], o_parentContext = None,
            o_asyncIterator = None\<rparr>"

definition optsE :: opts where
  "optsE = \<lparr>o_label = None, o_path = [Key ''d'', Key ''e''], o_parentContext = Some 1,
            o_asyncIterator = None\<rparr>"

definition exhausted_session :: "call list" where
  "exhausted_session =
     [PrepareNewStreamItemsRecord optsC, PrepareNewDeferredFragmentRecord optsD,
      PrepareNewDeferredFragmentRecord optsE, PublishInitial,
      SetIsCompletedAsyncIterator 0, CompleteStreamItemsRecord 0 None,
      CompleteDeferredFragmentRecord 1 (JObj [(''x'', JNum 1)])]"

text \<open>One deferred record A under the initial result, which does not complete.\<close>

definition optsA :: opts where
  "optsA = \<lparr>o_label = None, o_path = [Key ''a''], o_parentContext = None,
            o_asyncIterator = None\<rparr>"

definition blocked_session :: "call list" where
  "blocked_session = [PrepareNewDeferredFragmentRecord optsA, PublishInitial]"

text \<open>
  Four records: a stream record at \<open>x.y\<close> and a deferred record at \<open>z\<close> under the initial
  result, a stream record at \<open>x[0]\<close> under the record at \<open>z\<close> that shares the source of
  the first, and a deferred record with the empty path under the initial result.  None has
  completed when the initial result is published.
\<close>

definition optsX :: opts where
  "optsX = \<lparr>o_label = None, o_path = [Key ''x'', Key ''y''], o_parentContext = None,
            o_asyncIterator = Some 5\<rparr>"

definition optsZ :: opts where
  "optsZ = \<lparr>o_label = None, o_path = [Key ''z''], o_parentContext = None,
            o_asyncIterator = None\<rparr>"

definition optsX0 :: opts where
  "optsX0 = \<lparr>o_label = None, o_path = [Key ''x'', Index 0], o_parentContext = Some 1,
             o_asyncIterator = Some 5\<rparr>"

definition optsTop :: opts where
  "optsTop = \<lparr>o_label = None, o_path = [], o_parentContext = None, o_asyncIterator = None\<rparr>"

definition filter_session :: "call list" where
  "filter_session =
     [PrepareNewStreamItemsRecord optsX, PrepareNewDeferredFragmentRecord optsZ,
      PrepareNewStreamItemsRecord optsX0, PrepareNewDeferredFragmentRecord optsTop,
      PublishInitial]"

text \<open>Sources whose \<^verbatim>\<open>return()\<close> rejects, and sources whose \<^verbatim>\<open>return()\<close> resolves.\<close>

definition rejecting :: env where
  "rejecting = (\<lambda>_. Rejects 0 ''boom'')"

definition resolving :: env where
  "resolving = (\<lambda>_. Resolves)"

text \<open>
  The spec's scenario: deferred record A with a stream record B as its child, where B
  completes before A.  The longer session goes on to drain both, with a second completion
  call for each record after A was drained.
\<close>

definition optsB :: opts where
  "optsB = \<lparr>o_label = Some ''b'', o_path = [Key ''a'', Key ''items''], o_parentContext = Some 0,
            o_asyncIterator = Some 7\<rparr>"

definition child_first_session :: "call list" where
  "child_first_session =
     [PrepareNewDeferredFragmentRecord optsA, PrepareNewStreamItemsRecord optsB,
      PublishInitial, CompleteStreamItemsRecord 1 (Some [JNum 1]), Next,
      CompleteDeferredFragmentRecord 0 JNull]"

definition whole_session :: "call list" where
  "whole_session =
     child_first_session @
     [Next, CompleteDeferredFragmentRecord 0 JNull, CompleteStreamItemsRecord 1 (Some [JNum 1]),
      Next, Next]"

text \<open>
  Records A, B (child of A) and Z.  A completes and is drained; it is completed a second
  time; \<^verbatim>\<open>filter\<close> at \<open>a\<close> then removes A and B; B is completed after its removal; Z
  completes and is drained.
\<close>

definition removal_session :: "call list" where
  "removal_session =
     [PrepareNewDeferredFragmentRecord optsA, PrepareNewStreamItemsRecord optsB,
      PrepareNewDeferredFragmentRecord optsZ, PublishInitial,
      CompleteDeferredFragmentRecord 0 JNull, Next,
      CompleteDeferredFragmentRecord 0 JNull, Filter [Key ''a''] None,
      CompleteStreamItemsRecord 1 (Some [JNum 1]), CompleteDeferredFragmentRecord 2 JNull,
      Next, Next]"

text \<open>
  A stream record S under the initial result with a deferred record K as its child.  The
  source of S is exhausted and S completes; it is drained, and K becomes pending; K
  completes and is drained.
\<close>

definition optsS :: opts where
  "optsS = \<lparr>o_label = None, o_path = [Key ''s''], o_parentContext = None,
            o_asyncIterator = Some 3\<rparr>"

definition optsK :: opts where
  "optsK = \<lparr>o_label = Some ''k'', o_path = [Key ''s'', Index 0], o_parentContext = Some 0,
            o_asyncIterator = None\<rparr>"

definition exhausted_parent_session :: "call list" where
  "exhausted_parent_session =
     [PrepareNewStreamItemsRecord optsS, PrepareNewDeferredFragmentRecord optsK,
      PublishInitial, SetIsCompletedAsyncIterator 0, CompleteStreamItemsRecord 0 None,
      Next, CompleteDeferredFragmentRecord 1 (JObj [(''x'', JNum 1)]), Next]"

text \<open>
  Two stream records under the initial result, at \<open>x.y\<close> with source 5 and at \<open>x.w\<close> with
  source 6; and sources of which number 5 has a \<^verbatim>\<open>return\<close> method that throws, the others one
  whose promise resolves.
\<close>

definition optsW :: opts where
  "optsW = \<lparr>o_label = None, o_path = [Key ''x'', Key ''w''], o_parentContext = None,
            o_asyncIterator = Some 6\<rparr>"

definition two_sources_session :: "call list" where
  "two_sources_session =
     [PrepareNewStreamItemsRecord optsX, PrepareNewStreamItemsRecord optsW, PublishInitial]"

definition throwing :: env where
  "throwing = (\<lambda>a. if a = 5 then Throws ''boom'' else Resolves)"

section \<open>Sets as lists, and what publishing changes\<close>

lemma set_set_add [simp]: "set (set_add x xs) = insert x (set xs)"
  by (auto simp: set_add_def)

lemma distinct_set_add [simp]: "distinct (set_add x xs) = distinct xs"
  by (auto simp: set_add_def)

lemma set_set_delete [simp]: "set (set_delete x xs) = set xs - {x}"
  by (auto simp: set_delete_def)

lemma distinct_set_delete [simp]: "distinct xs \<Longrightarrow> distinct (set_delete x xs)"
  by (simp add: set_delete_def distinct_removeAll)

lemma set_delete_filter: "set_delete x xs = filter (\<lambda>y. y \<noteq> x) xs"
  by (induction xs) (auto simp: set_delete_def)

lemma fold_set_delete: "fold set_delete ds xs = filter (\<lambda>y. y \<notin> set ds) xs"
  by (induction ds arbitrary: xs) (auto simp: set_delete_filter intro: filter_cong)

lemma publish_frame [simp]:
  "heap (publish r s) = heap s" "nextRef (publish r s) = nextRef s"
  "initialChildren (publish r s) = initialChildren s" "isDone (publish r s) = isDone s"
  "returned (publish r s) = returned s"
  by (simp_all add: publish_def push_def introduce_def trigger_def)

lemma publish_pending [simp]: "pending (publish r s) = set_add r (pending s)"
  by (simp add: publish_def push_def introduce_def trigger_def)

lemma publish_released:
  "released (publish r s) = (if isCompleted (heap s r) then set_add r (released s) else released s)"
  by (simp add: publish_def push_def introduce_def trigger_def)

lemma fold_publish_frame [simp]:
  "heap (fold publish cs s) = heap s" "nextRef (fold publish cs s) = nextRef s"
  "initialChildren (fold publish cs s) = initialChildren s" "isDone (fold publish cs s) = isDone s"
  "returned (fold publish cs s) = returned s"
  by (induction cs arbitrary: s) simp_all

lemma fold_publish_pending: "set (pending (fold publish cs s)) = set (pending s) \<union> set cs"
  by (induction cs arbitrary: s) auto

lemma fold_publish_released:
  "set (released (fold publish cs s)) = set (released s) \<union> {c \<in> set cs. isCompleted (heap s c)}"
  by (induction cs arbitrary: s) (auto simp: publish_released)

lemma fold_publish_distinct:
  "distinct (pending (fold publish cs s)) = distinct (pending s)"
  "distinct (released (fold publish cs s)) = distinct (released s)"
  by (induction cs arbitrary: s) (auto simp: publish_released)

lemma loop_heap [simp]: "heap (fst (getIncrementalResult_loop rs s res enc)) = heap s"
  by (induction rs arbitrary: s res enc) (simp_all add: Let_def)

lemma loop_entries:
  "fst (snd (getIncrementalResult_loop rs s res enc)) =
     res @ map (\<lambda>r. entry (heap s r)) (filter (\<lambda>r. \<not> exhausted (heap s r)) rs)"
  by (induction rs arbitrary: s res enc) (simp_all add: Let_def exhausted_def)

lemma loop_enc:
  "snd (snd (getIncrementalResult_loop rs s res enc)) =
     (enc \<or> (\<exists>r \<in> set rs. exhausted (heap s r)))"
  by (induction rs arbitrary: s res enc) (auto simp add: Let_def exhausted_def)

lemma loop_pending:
  "set (pending (fst (getIncrementalResult_loop rs s res enc))) =
     set (pending s) \<union> (\<Union>r \<in> set rs. set (children (heap s r)))"
  by (induction rs arbitrary: s res enc) (auto simp add: Let_def fold_publish_pending)

lemma loop_released:
  "set (released (fst (getIncrementalResult_loop rs s res enc))) =
     set (released s) \<union> {c \<in> (\<Union>r \<in> set rs. set (children (heap s r))). isCompleted (heap s c)}"
  by (induction rs arbitrary: s res enc) (auto simp add: Let_def fold_publish_released)

lemma loop_frame [simp]:
  "nextRef (fst (getIncrementalResult_loop rs s res enc)) = nextRef s"
  "initialChildren (fst (getIncrementalResult_loop rs s res enc)) = initialChildren s"
  "isDone (fst (getIncrementalResult_loop rs s res enc)) = isDone s"
  "returned (fst (getIncrementalResult_loop rs s res enc)) = returned s"
  by (induction rs arbitrary: s res enc) (simp_all add: Let_def)

lemma next_pass_cases:
  assumes "\<not> isDone s"
  defines "s2 \<equiv> s\<lparr>pending := fold set_delete (released s) (pending s), released := []\<rparr>"
  defines "L \<equiv> getIncrementalResult_loop (released s) s2 [] False"
  shows "snd (next_pass s) = (if hasNext (fst L) then fst L else (fst L)\<lparr>isDone := True\<rparr>)"
    and "fst (next_pass s) =
      (if fst (snd L) \<noteq> [] then Value \<lparr>incremental = Some (fst (snd L)), res_hasNext = hasNext (fst L)\<rparr>
       else if snd (snd L) \<and> \<not> hasNext (fst L) then Value \<lparr>incremental = None, res_hasNext = False\<rparr>
       else Await (signalled (fst L)))"
  using assms(1) unfolding s2_def L_def
  by (auto simp: next_pass_def getIncrementalResult_def Let_def split: prod.splits option.splits)

lemma hasNext_pending: "hasNext s = (pending s \<noteq> [])"
  by (simp add: hasNext_def)

section \<open>Descendants and the path test\<close>

lemma descendants_Nil [simp]: "descendants h [] = {}"
proof -
  have "d \<in> descendants h [] \<Longrightarrow> False" for d
    by (induction rule: descendants.induct) auto
  then show ?thesis by auto
qed

lemma descendants_mono: "d \<in> descendants h cs \<Longrightarrow> set cs \<subseteq> descendants h ds \<Longrightarrow> d \<in> descendants h ds"
  by (induction rule: descendants.induct) (auto intro: descendants.below)

lemma descendants_Cons:
  "descendants h (c # cs) = insert c (descendants h (children (h c)) \<union> descendants h cs)"
proof (intro set_eqI iffI)
  fix d assume "d \<in> descendants h (c # cs)"
  then show "d \<in> insert c (descendants h (children (h c)) \<union> descendants h cs)"
  proof (induction rule: descendants.induct)
    case (top x) then show ?case by (auto intro: descendants.top)
  next
    case (below d x)
    then show ?case by (auto intro: descendants.top descendants.below)
  qed
next
  fix d assume "d \<in> insert c (descendants h (children (h c)) \<union> descendants h cs)"
  moreover have "c \<in> descendants h (c # cs)" by (simp add: descendants.top)
  moreover have "set (children (h c)) \<subseteq> descendants h (c # cs)"
    using descendants.below[OF descendants.top, of c "c # cs" _ h] by auto
  moreover have "set cs \<subseteq> descendants h (c # cs)" by (auto intro: descendants.top)
  ultimately show "d \<in> descendants h (c # cs)"
    by (auto intro: descendants_mono)
qed

lemma getDescendants_set:
  "getDescendants n h cs acc = Some ds \<Longrightarrow> set ds = set acc \<union> descendants h cs"
proof (induction n h cs acc arbitrary: ds rule: getDescendants.induct)
  case (1 depth h descendants)
  then show ?case by simp
next
  case (2 h child cs descendants)
  then show ?case by simp
next
  case (3 depth h child cs acc)
  from 3(3) obtain ds1 where
    ds1: "getDescendants depth h (children (h child)) (set_add child acc) = Some ds1"
    and ds: "getDescendants (Suc depth) h cs ds1 = Some ds"
    by (simp split: option.splits)
  have "set ds1 = insert child (set acc) \<union> descendants h (children (h child))"
    using 3(1)[OF ds1] by simp
  moreover have "set ds = set ds1 \<union> descendants h cs"
    using 3(2)[OF ds1 ds] .
  ultimately show ?case
    unfolding descendants_Cons by blast
qed

lemma getDescendants_distinct:
  "getDescendants n h cs acc = Some ds \<Longrightarrow> distinct acc \<Longrightarrow> distinct ds"
proof (induction n h cs acc arbitrary: ds rule: getDescendants.induct)
  case (1 depth h descendants)
  then show ?case by simp
next
  case (2 h child cs descendants)
  then show ?case by simp
next
  case (3 depth h child cs acc)
  from 3(3) obtain ds1 where
    ds1: "getDescendants depth h (children (h child)) (set_add child acc) = Some ds1"
    and ds: "getDescendants (Suc depth) h cs ds1 = Some ds"
    by (simp split: option.splits)
  have "distinct ds1" using 3(1)[OF ds1] 3(4) by simp
  then show ?case using 3(2)[OF ds1 ds] by simp
qed

lemma getDescendants_total:
  "\<forall>r < N. \<forall>c \<in> set (children (h r)). r < c \<and> c < N \<Longrightarrow>
   \<forall>c \<in> set cs. c < N \<and> N - c \<le> n \<Longrightarrow>
   getDescendants n h cs acc \<noteq> None"
proof (induction n h cs acc rule: getDescendants.induct)
  case (1 depth h descendants)
  show ?case by simp
next
  case (2 h child cs descendants)
  from 2(2) have "child < N \<and> N - child \<le> 0" by simp
  then show ?case by arith
next
  case (3 depth h child cs descendants)
  have c: "child < N" "N - child \<le> Suc depth" using 3(4) by simp_all
  have below: "child < x \<and> x < N" if "x \<in> set (children (h child))" for x
    using 3(3) c(1) that by blast
  have "x < N \<and> N - x \<le> depth" if "x \<in> set (children (h child))" for x
    using below[OF that] c(2) by arith
  then have "\<forall>c \<in> set (children (h child)). c < N \<and> N - c \<le> depth"
    by blast
  from 3(1)[OF 3(3) this] obtain ds where
    ds: "getDescendants depth h (children (h child)) (set_add child descendants) = Some ds"
    by blast
  have "\<forall>c \<in> set cs. c < N \<and> N - c \<le> Suc depth" using 3(4) by simp
  from 3(2)[OF ds 3(3) this] show ?case using ds by simp
qed

lemma matchesPath_from_iff:
  "matchesPath_from i testPath basePath \<longleftrightarrow>
     (\<forall>j. i \<le> j \<and> j < length basePath \<longrightarrow> j < length testPath \<and> testPath ! j = basePath ! j)"
proof (induction i testPath basePath rule: matchesPath_from.induct)
  case (1 i testPath basePath)
  show ?case
  proof (cases "i < length basePath")
    case False
    then have "matchesPath_from i testPath basePath"
      by (subst matchesPath_from.simps) simp
    moreover have "\<not> (i \<le> j \<and> j < length basePath)" for j
      using False by arith
    ultimately show ?thesis by blast
  next
    case True
    show ?thesis
    proof (cases "at basePath i = at testPath i")
      case False
      with True have "\<not> (i < length testPath \<and> testPath ! i = basePath ! i)"
        by (auto simp: at_def)
      then have "\<not> (\<forall>j. i \<le> j \<and> j < length basePath \<longrightarrow> j < length testPath \<and> testPath ! j = basePath ! j)"
        using True by blast
      moreover have "\<not> matchesPath_from i testPath basePath"
        using True False by (subst matchesPath_from.simps) simp
      ultimately show ?thesis by blast
    next
      case eq: True
      with True have here: "i < length testPath \<and> testPath ! i = basePath ! i"
        by (auto simp: at_def split: if_splits)
      have "matchesPath_from i testPath basePath = matchesPath_from (Suc i) testPath basePath"
        using True eq by (subst matchesPath_from.simps) simp
      also have "\<dots> = (\<forall>j. Suc i \<le> j \<and> j < length basePath \<longrightarrow> j < length testPath \<and> testPath ! j = basePath ! j)"
        using 1[OF True] eq by simp
      also have "\<dots> = (\<forall>j. i \<le> j \<and> j < length basePath \<longrightarrow> j < length testPath \<and> testPath ! j = basePath ! j)"
      proof (intro iffI allI impI)
        fix j
        assume a: "\<forall>j. Suc i \<le> j \<and> j < length basePath \<longrightarrow> j < length testPath \<and> testPath ! j = basePath ! j"
          and j: "i \<le> j \<and> j < length basePath"
        show "j < length testPath \<and> testPath ! j = basePath ! j"
        proof (cases "j = i")
          case True
          then show ?thesis using here by simp
        next
          case False
          then have "Suc i \<le> j" using j by arith
          then show ?thesis using a j by blast
        qed
      next
        fix j
        assume a: "\<forall>j. i \<le> j \<and> j < length basePath \<longrightarrow> j < length testPath \<and> testPath ! j = basePath ! j"
          and j: "Suc i \<le> j \<and> j < length basePath"
        from j have "i \<le> j \<and> j < length basePath" by arith
        then show "j < length testPath \<and> testPath ! j = basePath ! j" using a by blast
      qed
      finally show ?thesis .
    qed
  qed
qed

lemma prefix_iff_nth:
  "prefix b t \<longleftrightarrow> length b \<le> length t \<and> (\<forall>j < length b. t ! j = b ! j)"
proof -
  have "prefix b t \<longleftrightarrow> take (length b) t = b"
  proof
    assume "prefix b t"
    then obtain zs where "t = b @ zs" by (rule prefixE)
    then show "take (length b) t = b" by simp
  next
    assume "take (length b) t = b"
    then show "prefix b t" using take_is_prefix[of "length b" t] by simp
  qed
  also have "\<dots> \<longleftrightarrow> length b \<le> length t \<and> (\<forall>j < length b. t ! j = b ! j)"
    by (auto simp: list_eq_iff_nth_eq)
  finally show ?thesis .
qed

lemma matchesPath_prefix: "matchesPath testPath basePath \<longleftrightarrow> prefix basePath testPath"
proof -
  have "matchesPath testPath basePath \<longleftrightarrow>
      (\<forall>j < length basePath. j < length testPath \<and> testPath ! j = basePath ! j)"
    by (simp add: matchesPath_def matchesPath_from_iff)
  also have "\<dots> \<longleftrightarrow> length basePath \<le> length testPath \<and> (\<forall>j < length basePath. testPath ! j = basePath ! j)"
  proof (cases "length basePath \<le> length testPath")
    case True
    then show ?thesis by auto
  next
    case False
    then have "length testPath < length basePath" by simp
    then show ?thesis using False by blast
  qed
  finally show ?thesis by (simp add: prefix_iff_nth)
qed

section \<open>What the loop of filter does\<close>

lemma delete_fields [simp]:
  "heap (delete c s) = heap s" "nextRef (delete c s) = nextRef s"
  "initialChildren (delete c s) = initialChildren s" "isDone (delete c s) = isDone s"
  "returned (delete c s) = returned s"
  "pending (delete c s) = set_delete c (pending s)"
  "released (delete c s) = set_delete c (released s)"
  "signalled (delete c s) = Suc (signalled s)"
  by (simp_all add: delete_def trigger_def)

lemma detach_fields [simp]:
  "nextRef (detach c s) = nextRef s" "isDone (detach c s) = isDone s"
  "returned (detach c s) = returned s"
  "pending (detach c s) = set_delete c (pending s)"
  "released (detach c s) = set_delete c (released s)"
  "signalled (detach c s) = Suc (signalled s)"
  by (simp_all add: detach_def Let_def split: option.splits)

lemma detach_initialChildren:
  "initialChildren (detach c s) =
     (if parentContext (heap s c) = None then set_delete c (initialChildren s) else initialChildren s)"
  by (simp add: detach_def Let_def split: option.splits)

lemma detach_heap:
  "heap (detach c s) p =
     (if parentContext (heap s c) = Some p
      then (heap s p)\<lparr>children := set_delete c (children (heap s p))\<rparr>
      else heap s p)"
  by (simp add: detach_def Let_def split: option.splits)

lemma detach_record_fields [simp]:
  "path (heap (detach c s) p) = path (heap s p)"
  "parentContext (heap (detach c s) p) = parentContext (heap s p)"
  "kind (heap (detach c s) p) = kind (heap s p)"
  "asyncIterator (heap (detach c s) p) = asyncIterator (heap s p)"
  by (simp_all add: detach_heap)

lemma filter_loop_fields:
  "nextRef (fst (filter_loop np ds s its)) = nextRef s"
  "isDone (fst (filter_loop np ds s its)) = isDone s"
  "returned (fst (filter_loop np ds s its)) = returned s"
  by (induction ds arbitrary: s its) (simp_all add: Let_def)

lemma filter_loop_record_fields:
  "path (heap (fst (filter_loop np ds s its)) p) = path (heap s p) \<and>
   parentContext (heap (fst (filter_loop np ds s its)) p) = parentContext (heap s p) \<and>
   kind (heap (fst (filter_loop np ds s its)) p) = kind (heap s p) \<and>
   asyncIterator (heap (fst (filter_loop np ds s its)) p) = asyncIterator (heap s p)"
  by (induction ds arbitrary: s its) (simp_all add: Let_def)

lemma filter_loop_pending:
  "pending (fst (filter_loop np ds s its)) =
     filter (\<lambda>r. \<not> (r \<in> set ds \<and> matchesPath (path (heap s r)) np)) (pending s)"
proof (induction ds arbitrary: s its)
  case Nil
  then show ?case by simp
next
  case (Cons c cs)
  show ?case
  proof (cases "matchesPath (path (heap s c)) np")
    case False
    then show ?thesis by (auto simp: Cons intro!: filter_cong)
  next
    case True
    then show ?thesis
      by (auto simp: Cons Let_def set_delete_filter intro!: filter_cong)
  qed
qed

lemma filter_loop_released:
  "released (fst (filter_loop np ds s its)) =
     filter (\<lambda>r. \<not> (r \<in> set ds \<and> matchesPath (path (heap s r)) np)) (released s)"
proof (induction ds arbitrary: s its)
  case Nil
  then show ?case by simp
next
  case (Cons c cs)
  show ?case
  proof (cases "matchesPath (path (heap s c)) np")
    case False
    then show ?thesis by (auto simp: Cons intro!: filter_cong)
  next
    case True
    then show ?thesis
      by (auto simp: Cons Let_def set_delete_filter intro!: filter_cong)
  qed
qed

lemma filter_loop_initialChildren:
  "initialChildren (fst (filter_loop np ds s its)) =
     filter (\<lambda>r. \<not> (r \<in> set ds \<and> matchesPath (path (heap s r)) np \<and> parentContext (heap s r) = None))
       (initialChildren s)"
proof (induction ds arbitrary: s its)
  case Nil
  then show ?case by simp
next
  case (Cons c cs)
  show ?case
  proof (cases "matchesPath (path (heap s c)) np")
    case False
    then show ?thesis by (auto simp: Cons intro!: filter_cong)
  next
    case True
    then show ?thesis
      by (auto simp: Cons Let_def set_delete_filter detach_initialChildren intro!: filter_cong)
  qed
qed

lemma filter_loop_heap:
  "heap (fst (filter_loop np ds s its)) p =
     (heap s p)\<lparr>children :=
        filter (\<lambda>r. \<not> (r \<in> set ds \<and> matchesPath (path (heap s r)) np \<and> parentContext (heap s r) = Some p))
          (children (heap s p))\<rparr>"
proof (induction ds arbitrary: s its)
  case Nil
  then show ?case by simp
next
  case (Cons c cs)
  show ?case
  proof (cases "matchesPath (path (heap s c)) np")
    case False
    have "filter (\<lambda>r. \<not> (r \<in> set cs \<and> matchesPath (path (heap s r)) np \<and> parentContext (heap s r) = Some p))
            (children (heap s p)) =
          filter (\<lambda>r. \<not> (r \<in> set (c # cs) \<and> matchesPath (path (heap s r)) np \<and> parentContext (heap s r) = Some p))
            (children (heap s p))"
      using False by (intro filter_cong) auto
    then show ?thesis using False by (simp add: Cons)
  next
    case True
    let ?s1 = "detach c s"
    have step: "heap (fst (filter_loop np (c # cs) s its)) p =
        (heap ?s1 p)\<lparr>children :=
          filter (\<lambda>r. \<not> (r \<in> set cs \<and> matchesPath (path (heap s r)) np \<and> parentContext (heap s r) = Some p))
            (children (heap ?s1 p))\<rparr>"
      using True by (simp add: Cons Let_def)
    show ?thesis
    proof (cases "parentContext (heap s c) = Some p")
      case False
      have "filter (\<lambda>r. \<not> (r \<in> set cs \<and> matchesPath (path (heap s r)) np \<and> parentContext (heap s r) = Some p))
            (children (heap s p)) =
          filter (\<lambda>r. \<not> (r \<in> set (c # cs) \<and> matchesPath (path (heap s r)) np \<and> parentContext (heap s r) = Some p))
            (children (heap s p))"
        using False by (intro filter_cong) auto
      then show ?thesis using False step by (simp add: detach_heap)
    next
      case parent: True
      have "filter (\<lambda>r. \<not> (r \<in> set cs \<and> matchesPath (path (heap s r)) np \<and> parentContext (heap s r) = Some p))
            (set_delete c (children (heap s p))) =
          filter (\<lambda>r. \<not> (r \<in> set (c # cs) \<and> matchesPath (path (heap s r)) np \<and> parentContext (heap s r) = Some p))
            (children (heap s p))"
        using True parent unfolding set_delete_filter filter_filter
        by (intro filter_cong) auto
      then show ?thesis using parent step by (simp add: detach_heap)
    qed
  qed
qed

lemma collected_simps:
  "collected h [] = []"
  "collected h (d # ds) =
     (if isStreamItemsRecord (h d)
      then (case asyncIterator (h d) of None \<Rightarrow> collected h ds | Some a \<Rightarrow> a # collected h ds)
      else collected h ds)"
  by (simp_all add: collected_def List.map_filter_simps split: option.splits)

lemma collected_detach: "collected (heap (detach c s)) xs = collected (heap s) xs"
  by (induction xs) (simp_all add: collected_simps isStreamItemsRecord_def split: option.splits)

lemma filter_loop_iterators:
  "snd (filter_loop np ds s its) =
     fold set_add (collected (heap s) (filter (\<lambda>d. matchesPath (path (heap s d)) np) ds)) its"
proof (induction ds arbitrary: s its)
  case Nil
  then show ?case by (simp add: collected_simps)
next
  case (Cons c cs)
  show ?case
  proof (cases "matchesPath (path (heap s c)) np")
    case False
    then show ?thesis by (simp add: Cons)
  next
    case True
    then show ?thesis
      by (simp add: Cons Let_def collected_detach collected_simps isStreamItemsRecord_def
               split: option.splits)
  qed
qed

section \<open>The shape of reachable states\<close>

lemma forestI:
  assumes "\<And>r c. r < nextRef s \<Longrightarrow> c \<in> set (children (heap s r)) \<Longrightarrow>
             r < c \<and> c < nextRef s \<and> parentContext (heap s c) = Some r"
    and "\<And>c. c \<in> set (initialChildren s) \<Longrightarrow> c < nextRef s \<and> parentContext (heap s c) = None"
    and "\<And>r. r \<in> set (pending s) \<Longrightarrow> r < nextRef s"
    and "set (released s) \<subseteq> set (pending s)"
    and "distinct (pending s)" and "distinct (released s)"
  shows "forest s"
  using assms unfolding forest_def by blast

lemma forestD:
  assumes "forest s"
  shows "r < nextRef s \<Longrightarrow> c \<in> set (children (heap s r)) \<Longrightarrow>
             r < c \<and> c < nextRef s \<and> parentContext (heap s c) = Some r"
    and "c \<in> set (initialChildren s) \<Longrightarrow> c < nextRef s \<and> parentContext (heap s c) = None"
    and "r \<in> set (pending s) \<Longrightarrow> r < nextRef s"
    and "set (released s) \<subseteq> set (pending s)"
    and "distinct (pending s)" and "distinct (released s)"
  using assms unfolding forest_def by blast+

lemma forest_init: "forest init"
  by (simp add: forest_def init_def blank_def DeferredFragmentRecord_def)

lemma release_fields [simp]:
  "heap (release r s) = heap s" "nextRef (release r s) = nextRef s"
  "initialChildren (release r s) = initialChildren s" "isDone (release r s) = isDone s"
  "returned (release r s) = returned s" "pending (release r s) = pending s"
  by (simp_all add: release_def trigger_def)

lemma release_released:
  "released (release r s) = (if r \<in> set (pending s) then set_add r (released s) else released s)"
  by (simp add: release_def trigger_def)

lemma prepare_attach:
  "prepareNewDeferredFragmentRecord opt s = (nextRef s, attach opt (DeferredFragmentRecord opt) s)"
  "prepareNewStreamItemsRecord opt s = (nextRef s, attach opt (StreamItemsRecord opt) s)"
  by (simp_all add: prepareNewDeferredFragmentRecord_def prepareNewStreamItemsRecord_def
        attach_def Let_def)

lemma attach_fields [simp]:
  "nextRef (attach opt new s) = Suc (nextRef s)" "pending (attach opt new s) = pending s"
  "released (attach opt new s) = released s" "isDone (attach opt new s) = isDone s"
  "returned (attach opt new s) = returned s" "signalled (attach opt new s) = signalled s"
  by (simp_all add: attach_def Let_def split: option.splits)

lemma attach_initialChildren:
  "initialChildren (attach opt new s) =
       (if o_parentContext opt = None then set_add (nextRef s) (initialChildren s)
        else initialChildren s)"
  by (simp add: attach_def Let_def split: option.splits)

lemma attach_heap:
  "heap (attach opt new s) x =
       (if o_parentContext opt = Some x
        then (if x = nextRef s then new else heap s x)
               \<lparr>children := set_add (nextRef s) (children (if x = nextRef s then new else heap s x))\<rparr>
        else if x = nextRef s then new
        else heap s x)"
  by (simp add: attach_def Let_def split: option.splits)

lemma attach_old:
  assumes "x < nextRef s"
  shows "parentContext (heap (attach opt new s) x) = parentContext (heap s x)"
    and "children (heap (attach opt new s) x) =
          (if o_parentContext opt = Some x then set_add (nextRef s) (children (heap s x))
           else children (heap s x))"
    and "path (heap (attach opt new s) x) = path (heap s x)"
    and "kind (heap (attach opt new s) x) = kind (heap s x)"
    and "isCompleted (heap (attach opt new s) x) = isCompleted (heap s x)"
    and "asyncIterator (heap (attach opt new s) x) = asyncIterator (heap s x)"
    and "isCompletedAsyncIterator (heap (attach opt new s) x) = isCompletedAsyncIterator (heap s x)"
  using assms by (simp_all add: attach_heap)

lemma attach_new:
  assumes "o_parentContext opt \<noteq> Some (nextRef s)"
  shows "heap (attach opt new s) (nextRef s) = new"
  using assms by (simp add: attach_heap)

lemma forest_attach:
  assumes f: "forest s"
    and ok: "case o_parentContext opt of None \<Rightarrow> True | Some p \<Rightarrow> p < nextRef s"
    and new: "children new = []" "parentContext new = o_parentContext opt"
  shows "forest (attach opt new s)"
proof (rule forestI)
  note D = forestD[OF f]
  have neq: "o_parentContext opt \<noteq> Some (nextRef s)"
    using ok by (auto split: option.splits)
  note N = attach_new[OF neq, of new]
  fix r c
  assume r: "r < nextRef (attach opt new s)" and c: "c \<in> set (children (heap (attach opt new s) r))"
  show "r < c \<and> c < nextRef (attach opt new s) \<and> parentContext (heap (attach opt new s) c) = Some r"
  proof (cases "r = nextRef s")
    case True
    then show ?thesis using c N new by simp
  next
    case False
    then have r': "r < nextRef s" using r by simp
    show ?thesis
    proof (cases "c = nextRef s")
      case True
      then have "o_parentContext opt = Some r"
        using c r' D(1)[of r c] by (auto simp: attach_old split: if_splits)
      then show ?thesis using True r' N new by simp
    next
      case False
      then have "c \<in> set (children (heap s r))"
        using c r' by (auto simp: attach_old split: if_splits)
      then have "r < c \<and> c < nextRef s \<and> parentContext (heap s c) = Some r"
        using D(1)[OF r'] by blast
      then show ?thesis by (simp add: attach_old)
    qed
  qed
next
  note D = forestD[OF f]
  have neq: "o_parentContext opt \<noteq> Some (nextRef s)"
    using ok by (auto split: option.splits)
  note N = attach_new[OF neq, of new]
  fix c assume c: "c \<in> set (initialChildren (attach opt new s))"
  show "c < nextRef (attach opt new s) \<and> parentContext (heap (attach opt new s) c) = None"
  proof (cases "c = nextRef s")
    case True
    then have "o_parentContext opt = None"
      using c D(2)[of c] by (auto simp: attach_initialChildren split: if_splits)
    then show ?thesis using True N new by simp
  next
    case False
    then have "c \<in> set (initialChildren s)"
      using c by (auto simp: attach_initialChildren split: if_splits)
    then have "c < nextRef s \<and> parentContext (heap s c) = None" using D(2) by blast
    then show ?thesis by (simp add: attach_old)
  qed
next
  fix r assume "r \<in> set (pending (attach opt new s))"
  then show "r < nextRef (attach opt new s)" using forestD(3)[OF f, of r] by simp
next
  show "set (released (attach opt new s)) \<subseteq> set (pending (attach opt new s))"
    using forestD(4)[OF f] by simp
next
  show "distinct (pending (attach opt new s))" using forestD(5)[OF f] by simp
next
  show "distinct (released (attach opt new s))" using forestD(6)[OF f] by simp
qed

lemma forest_shrink:
  assumes f: "forest s"
    and "nextRef s' = nextRef s"
    and h: "\<And>x. x < nextRef s \<Longrightarrow> set (children (heap s' x)) \<subseteq> set (children (heap s x)) \<and>
               parentContext (heap s' x) = parentContext (heap s x)"
    and i: "set (initialChildren s') \<subseteq> set (initialChildren s)"
    and p: "\<And>r. r \<in> set (pending s') \<Longrightarrow> r < nextRef s"
    and "set (released s') \<subseteq> set (pending s')"
    and "distinct (pending s')" and "distinct (released s')"
  shows "forest s'"
proof (rule forestI)
  fix r c assume "r < nextRef s'" "c \<in> set (children (heap s' r))"
  then have "r < nextRef s" "c \<in> set (children (heap s r))"
    using assms(2) h[of r] by auto
  from forestD(1)[OF f this] show "r < c \<and> c < nextRef s' \<and> parentContext (heap s' c) = Some r"
    using assms(2) h[of c] by simp
next
  fix c assume "c \<in> set (initialChildren s')"
  then have "c \<in> set (initialChildren s)" using i by blast
  from forestD(2)[OF f this] show "c < nextRef s' \<and> parentContext (heap s' c) = None"
    using assms(2) h[of c] by simp
next
  fix r assume "r \<in> set (pending s')"
  then show "r < nextRef s'" using p assms(2) by simp
qed (use assms in simp_all)

lemma loop_distinct:
  "distinct (pending (fst (getIncrementalResult_loop rs s res enc))) = distinct (pending s)"
  "distinct (released (fst (getIncrementalResult_loop rs s res enc))) = distinct (released s)"
  by (induction rs arbitrary: s res enc) (simp_all add: Let_def fold_publish_distinct)

lemma next_pass_done: "isDone s \<Longrightarrow> next_pass s = (Done, s)"
  by (simp add: next_pass_def)

lemma next_pass_fields:
  assumes "\<not> isDone s"
  shows "heap (snd (next_pass s)) = heap s" "nextRef (snd (next_pass s)) = nextRef s"
    "initialChildren (snd (next_pass s)) = initialChildren s"
    "returned (snd (next_pass s)) = returned s"
    "set (pending (snd (next_pass s))) =
       (set (pending s) - set (released s)) \<union> childrenOf (heap s) (released s)"
    "set (released (snd (next_pass s))) =
       {c \<in> childrenOf (heap s) (released s). isCompleted (heap s c)}"
    "distinct (pending s) \<Longrightarrow> distinct (pending (snd (next_pass s)))"
    "distinct (released (snd (next_pass s)))"
  unfolding next_pass_cases(1)[OF assms]
  by (auto simp: loop_pending loop_released loop_distinct fold_set_delete childrenOf_def)

lemma request_fields [simp]:
  "heap (request a s) = heap s" "nextRef (request a s) = nextRef s"
  "initialChildren (request a s) = initialChildren s"
  "isDone (request a s) = isDone s"
  "pending (request a s) = pending s"
  "released (request a s) = released s"
  "signalled (request a s) = signalled s"
  "returned (request a s) = returned s @ [a]"
  by (simp_all add: request_def)

lemma return_each_fields [simp]:
  "heap (snd (return_each env as s)) = heap s"
  "nextRef (snd (return_each env as s)) = nextRef s"
  "initialChildren (snd (return_each env as s)) = initialChildren s"
  "isDone (snd (return_each env as s)) = isDone s"
  "pending (snd (return_each env as s)) = pending s"
  "released (snd (return_each env as s)) = released s"
  "signalled (snd (return_each env as s)) = signalled s"
  by (induction as arbitrary: s; simp split: return_method.splits)+

lemma return_each_promises:
  assumes "\<forall>a \<in> set as. returns_promise (env a)"
  shows "fst (return_each env as s) = None"
    and "returned (snd (return_each env as s)) = returned s @ filter (\<lambda>a. env a \<noteq> NoReturn) as"
  using assms
  by (induction as arbitrary: s; simp add: returns_promise_def split: return_method.splits)+

lemma filter_call_unfold:
  assumes "getDescendants (nextRef s) (heap s) (origin_children s origin) [] = Some ds"
  shows "filter_call env np origin s =
     Some (return_each env (snd (filter_loop np ds s [])) (fst (filter_loop np ds s [])))"
  using assms
  by (simp add: filter_call_def origin_children_def Let_def split: prod.splits)

lemma filter_records_unfold:
  assumes "getDescendants (nextRef s) (heap s) (origin_children s origin) [] = Some ds"
  shows "filter_records env np origin s =
     Some (snd (return_each env (snd (filter_loop np ds s [])) (fst (filter_loop np ds s []))))"
  by (simp add: filter_records_def filter_call_unfold[OF assms])

lemma filter_records_None:
  assumes "getDescendants (nextRef s) (heap s) (origin_children s origin) [] = None"
  shows "filter_records env np origin s = None"
  using assms
  by (simp add: filter_records_def filter_call_def origin_children_def Let_def split: prod.splits)

lemma perform_Filter:
  assumes "perform env (Filter np origin) s = Some (e, s')"
  shows "filter_records env np origin s = Some s'" and "drained e = []"
    and "\<forall>batch out. e \<noteq> Pulled batch out"
  using assms by (auto simp: filter_records_def split: option.splits)

lemma origin_children_ok:
  assumes f: "forest s" and ok: "case origin of None \<Rightarrow> True | Some e \<Rightarrow> e < nextRef s"
    and c: "c \<in> set (origin_children s origin)"
  shows "c < nextRef s"
proof (cases origin)
  case None
  then show ?thesis using c forestD(2)[OF f, of c] by (simp add: origin_children_def)
next
  case (Some e)
  then show ?thesis using c ok forestD(1)[OF f, of e c] by (simp add: origin_children_def)
qed

lemma descendants_allocated:
  assumes f: "forest s" and "\<forall>c \<in> set cs. c < nextRef s"
  shows "d \<in> descendants (heap s) cs \<Longrightarrow> d < nextRef s"
proof (induction rule: descendants.induct)
  case (top c)
  then show ?case using assms(2) by blast
next
  case (below d c)
  then show ?case using forestD(1)[OF f, of d c] by blast
qed

lemma getDescendants_forest:
  assumes f: "forest s" and ok: "case origin of None \<Rightarrow> True | Some e \<Rightarrow> e < nextRef s"
  obtains ds where "getDescendants (nextRef s) (heap s) (origin_children s origin) [] = Some ds"
    and "set ds = descendants (heap s) (origin_children s origin)" and "distinct ds"
proof -
  have "\<forall>r < nextRef s. \<forall>c \<in> set (children (heap s r)). r < c \<and> c < nextRef s"
    using forestD(1)[OF f] by blast
  moreover have "\<forall>c \<in> set (origin_children s origin). c < nextRef s \<and> nextRef s - c \<le> nextRef s"
    using origin_children_ok[OF f ok] by simp
  ultimately have "getDescendants (nextRef s) (heap s) (origin_children s origin) [] \<noteq> None"
    by (rule getDescendants_total)
  then obtain ds where ds: "getDescendants (nextRef s) (heap s) (origin_children s origin) [] = Some ds"
    by blast
  show thesis
    using that[OF ds] getDescendants_set[OF ds] getDescendants_distinct[OF ds] by simp
qed

lemma fold_set_add_set: "set (fold set_add xs acc) = set acc \<union> set xs"
  by (induction xs arbitrary: acc) auto

lemma fold_set_add_distinct: "distinct (fold set_add xs acc) = distinct acc"
  by (induction xs arbitrary: acc) auto

lemma set_collected:
  "set (collected h ds) =
     {a. \<exists>d \<in> set ds. isStreamItemsRecord (h d) \<and> asyncIterator (h d) = Some a}"
  by (induction ds) (auto simp: collected_simps split: option.splits)

lemma filter_records_effect:
  assumes f: "forest s" and ok: "case origin of None \<Rightarrow> True | Some e \<Rightarrow> e < nextRef s"
  shows "\<exists>s' its thrown. filter_records env np origin s = Some s' \<and>
     filter_call env np origin s = Some (thrown, s') \<and>
     pending s' = filter (\<lambda>r. r \<notin> pruned s np origin) (pending s) \<and>
     released s' = filter (\<lambda>r. r \<notin> pruned s np origin) (released s) \<and>
     initialChildren s' = filter (\<lambda>r. r \<notin> pruned s np origin) (initialChildren s) \<and>
     (\<forall>p < nextRef s. heap s' p =
        (heap s p)\<lparr>children := filter (\<lambda>r. r \<notin> pruned s np origin) (children (heap s p))\<rparr>) \<and>
     nextRef s' = nextRef s \<and> isDone s' = isDone s \<and>
     ((\<forall>a \<in> set its. returns_promise (env a)) \<longrightarrow>
        thrown = None \<and> returned s' = returned s @ filter (\<lambda>a. env a \<noteq> NoReturn) its) \<and>
     distinct its \<and>
     set its = {a. \<exists>d \<in> pruned s np origin.
                  isStreamItemsRecord (heap s d) \<and> asyncIterator (heap s d) = Some a}"
proof -
  obtain ds where ds: "getDescendants (nextRef s) (heap s) (origin_children s origin) [] = Some ds"
    and set_ds: "set ds = descendants (heap s) (origin_children s origin)"
    by (rule getDescendants_forest[OF f ok])
  let ?L = "filter_loop np ds s []"
  let ?s' = "snd (return_each env (snd ?L) (fst ?L))"
  let ?its = "snd ?L"
  have M: "(r \<in> set ds \<and> matchesPath (path (heap s r)) np) = (r \<in> pruned s np origin)" for r
    by (simp add: pruned_def set_ds matchesPath_prefix)
  have 1: "filter_records env np origin s = Some ?s'"
    by (rule filter_records_unfold[OF ds])
  have 0: "filter_call env np origin s = Some (fst (return_each env (snd ?L) (fst ?L)), ?s')"
    by (simp add: filter_call_unfold[OF ds])
  have 2: "pending ?s' = filter (\<lambda>r. r \<notin> pruned s np origin) (pending s)"
    by (simp add: filter_loop_pending M)
  have 3: "released ?s' = filter (\<lambda>r. r \<notin> pruned s np origin) (released s)"
    by (simp add: filter_loop_released M)
  have 4: "initialChildren ?s' = filter (\<lambda>r. r \<notin> pruned s np origin) (initialChildren s)"
  proof -
    have "filter (\<lambda>r. \<not> (r \<in> set ds \<and> matchesPath (path (heap s r)) np \<and> parentContext (heap s r) = None))
            (initialChildren s) = filter (\<lambda>r. r \<notin> pruned s np origin) (initialChildren s)"
      using forestD(2)[OF f] M by (intro filter_cong) auto
    then show ?thesis by (simp add: filter_loop_initialChildren)
  qed
  have 5: "heap ?s' p =
        (heap s p)\<lparr>children := filter (\<lambda>r. r \<notin> pruned s np origin) (children (heap s p))\<rparr>"
    if "p < nextRef s" for p
  proof -
    have "filter (\<lambda>r. \<not> (r \<in> set ds \<and> matchesPath (path (heap s r)) np \<and> parentContext (heap s r) = Some p))
            (children (heap s p)) = filter (\<lambda>r. r \<notin> pruned s np origin) (children (heap s p))"
      using forestD(1)[OF f that] M by (intro filter_cong) auto
    then show ?thesis by (simp add: filter_loop_heap)
  qed
  have 6: "nextRef ?s' = nextRef s" "isDone ?s' = isDone s"
    by (simp_all add: filter_loop_fields)
  have 7: "fst (return_each env (snd ?L) (fst ?L)) = None \<and>
           returned ?s' = returned s @ filter (\<lambda>a. env a \<noteq> NoReturn) ?its"
    if "\<forall>a \<in> set ?its. returns_promise (env a)"
    using return_each_promises[OF that] by (simp add: filter_loop_fields)
  have 8: "distinct ?its"
    by (simp add: filter_loop_iterators fold_set_add_distinct)
  have 9: "set ?its = {a. \<exists>d \<in> pruned s np origin.
                  isStreamItemsRecord (heap s d) \<and> asyncIterator (heap s d) = Some a}"
    using M by (auto simp: filter_loop_iterators fold_set_add_set set_collected)
  show ?thesis
    using 0 1 2 3 4 5 6 7 8 9 by blast
qed

lemma complete_fields [simp]:
  "nextRef (completeDeferredFragmentRecord r d s) = nextRef s"
  "initialChildren (completeDeferredFragmentRecord r d s) = initialChildren s"
  "isDone (completeDeferredFragmentRecord r d s) = isDone s"
  "returned (completeDeferredFragmentRecord r d s) = returned s"
  "pending (completeDeferredFragmentRecord r d s) = pending s"
  "nextRef (completeStreamItemsRecord r its s) = nextRef s"
  "initialChildren (completeStreamItemsRecord r its s) = initialChildren s"
  "isDone (completeStreamItemsRecord r its s) = isDone s"
  "returned (completeStreamItemsRecord r its s) = returned s"
  "pending (completeStreamItemsRecord r its s) = pending s"
  by (simp_all add: completeDeferredFragmentRecord_def completeStreamItemsRecord_def)

lemma complete_released:
  "released (completeDeferredFragmentRecord r d s) =
     (if r \<in> set (pending s) then set_add r (released s) else released s)"
  "released (completeStreamItemsRecord r its s) =
     (if r \<in> set (pending s) then set_add r (released s) else released s)"
  by (simp_all add: completeDeferredFragmentRecord_def completeStreamItemsRecord_def
        release_released)

lemma complete_heap:
  "heap (completeDeferredFragmentRecord r d s) =
     (heap s)(r := (heap s r)\<lparr>data := d, isCompleted := True\<rparr>)"
  "heap (completeStreamItemsRecord r its s) =
     (heap s)(r := (heap s r)\<lparr>items := its, isCompleted := True\<rparr>)"
  by (simp_all add: completeDeferredFragmentRecord_def completeStreamItemsRecord_def)

lemma complete_shape [simp]:
  "children (heap (completeDeferredFragmentRecord r d s) x) = children (heap s x)"
  "parentContext (heap (completeDeferredFragmentRecord r d s) x) = parentContext (heap s x)"
  "children (heap (completeStreamItemsRecord r its s) x) = children (heap s x)"
  "parentContext (heap (completeStreamItemsRecord r its s) x) = parentContext (heap s x)"
  by (simp_all add: complete_heap)

lemma flag_fields [simp]:
  "nextRef (setIsCompletedAsyncIterator r s) = nextRef s"
  "initialChildren (setIsCompletedAsyncIterator r s) = initialChildren s"
  "isDone (setIsCompletedAsyncIterator r s) = isDone s"
  "returned (setIsCompletedAsyncIterator r s) = returned s"
  "pending (setIsCompletedAsyncIterator r s) = pending s"
  "released (setIsCompletedAsyncIterator r s) = released s"
  "children (heap (setIsCompletedAsyncIterator r s) x) = children (heap s x)"
  "parentContext (heap (setIsCompletedAsyncIterator r s) x) = parentContext (heap s x)"
  "nextRef (addFieldError r e s) = nextRef s"
  "initialChildren (addFieldError r e s) = initialChildren s"
  "isDone (addFieldError r e s) = isDone s"
  "returned (addFieldError r e s) = returned s"
  "pending (addFieldError r e s) = pending s"
  "released (addFieldError r e s) = released s"
  "children (heap (addFieldError r e s) x) = children (heap s x)"
  "parentContext (heap (addFieldError r e s) x) = parentContext (heap s x)"
  by (simp_all add: setIsCompletedAsyncIterator_def addFieldError_def)

lemma publishInitial_fields [simp]:
  "heap (publishInitial s) = heap s" "nextRef (publishInitial s) = nextRef s"
  "initialChildren (publishInitial s) = initialChildren s"
  "isDone (publishInitial s) = isDone s" "returned (publishInitial s) = returned s"
  by (simp_all add: publishInitial_def)

lemma publishInitial_sets:
  "set (pending (publishInitial s)) = set (pending s) \<union> set (initialChildren s)"
  "set (released (publishInitial s)) =
     set (released s) \<union> {c \<in> set (initialChildren s). isCompleted (heap s c)}"
  "distinct (pending (publishInitial s)) = distinct (pending s)"
  "distinct (released (publishInitial s)) = distinct (released s)"
  by (simp_all add: publishInitial_def fold_publish_pending fold_publish_released
        fold_publish_distinct)

lemma returnStreamIterators_fields [simp]:
  "heap (snd (returnStreamIterators env s)) = heap s"
  "nextRef (snd (returnStreamIterators env s)) = nextRef s"
  "initialChildren (snd (returnStreamIterators env s)) = initialChildren s"
  "isDone (snd (returnStreamIterators env s)) = isDone s"
  "pending (snd (returnStreamIterators env s)) = pending s"
  "released (snd (returnStreamIterators env s)) = released s"
  by (simp_all add: returnStreamIterators_def split: prod.splits)

lemma snd_subscribe:
  "snd (subscribe_return env s) = snd (returnStreamIterators env (s\<lparr>isDone := True\<rparr>))"
  "snd (subscribe_throw env err s) = snd (returnStreamIterators env (s\<lparr>isDone := True\<rparr>))"
  by (simp_all add: subscribe_return_def subscribe_throw_def split: prod.splits option.splits)

lemma subscribe_return_fields [simp]:
  "heap (snd (subscribe_return env s)) = heap s"
  "nextRef (snd (subscribe_return env s)) = nextRef s"
  "initialChildren (snd (subscribe_return env s)) = initialChildren s"
  "isDone (snd (subscribe_return env s)) = True"
  "pending (snd (subscribe_return env s)) = pending s"
  "released (snd (subscribe_return env s)) = released s"
  "heap (snd (subscribe_throw env err s)) = heap s"
  "nextRef (snd (subscribe_throw env err s)) = nextRef s"
  "initialChildren (snd (subscribe_throw env err s)) = initialChildren s"
  "isDone (snd (subscribe_throw env err s)) = True"
  "pending (snd (subscribe_throw env err s)) = pending s"
  "released (snd (subscribe_throw env err s)) = released s"
  by (simp_all add: snd_subscribe)

lemma step_SomeD:
  assumes "step env c s = Some (e, s')"
  shows "refs_ok s c" and "perform env c s = Some (e, s')"
  using assms by (simp_all add: step_def split: if_splits)

lemma forest_step:
  assumes st: "step env c s = Some (e, s')" and f: "forest s"
  shows "forest s'"
proof -
  note ok = step_SomeD(1)[OF st] and p = step_SomeD(2)[OF st]
  note D = forestD[OF f]
  show ?thesis
  proof (cases c)
    case (PrepareNewDeferredFragmentRecord opt)
    with p have s': "s' = attach opt (DeferredFragmentRecord opt) s"
      by (simp add: prepare_attach)
    show ?thesis unfolding s'
      using ok PrepareNewDeferredFragmentRecord
      by (intro forest_attach[OF f]) (simp_all add: DeferredFragmentRecord_def)
  next
    case (PrepareNewStreamItemsRecord opt)
    with p have s': "s' = attach opt (StreamItemsRecord opt) s"
      by (simp add: prepare_attach)
    show ?thesis unfolding s'
      using ok PrepareNewStreamItemsRecord
      by (intro forest_attach[OF f]) (simp_all add: StreamItemsRecord_def)
  next
    case (CompleteDeferredFragmentRecord r d)
    with p have s': "s' = completeDeferredFragmentRecord r d s" by simp
    show ?thesis unfolding s'
      using D(3,4,5,6) by (intro forest_shrink[OF f]) (auto simp: complete_released)
  next
    case (CompleteStreamItemsRecord r its)
    with p have s': "s' = completeStreamItemsRecord r its s" by simp
    show ?thesis unfolding s'
      using D(3,4,5,6) by (intro forest_shrink[OF f]) (auto simp: complete_released)
  next
    case (SetIsCompletedAsyncIterator r)
    with p have s': "s' = setIsCompletedAsyncIterator r s" by simp
    show ?thesis unfolding s'
      using D(3,4,5,6) by (intro forest_shrink[OF f]) auto
  next
    case (AddFieldError r err)
    with p have s': "s' = addFieldError r err s" by simp
    show ?thesis unfolding s'
      using D(3,4,5,6) by (intro forest_shrink[OF f]) auto
  next
    case PublishInitial
    with p have s': "s' = publishInitial s" by simp
    show ?thesis unfolding s'
      using D(2,3,4,5,6) by (intro forest_shrink[OF f]) (auto simp: publishInitial_sets)
  next
    case (Filter np origin)
    from p have fr: "filter_records env np origin s = Some s'"
      unfolding Filter by (rule perform_Filter(1))
    have ok': "case origin of None \<Rightarrow> True | Some e \<Rightarrow> e < nextRef s"
      using ok Filter by simp
    from filter_records_effect[OF f ok', of env np] fr
    have eff: "pending s' = filter (\<lambda>r. r \<notin> pruned s np origin) (pending s)"
      "released s' = filter (\<lambda>r. r \<notin> pruned s np origin) (released s)"
      "initialChildren s' = filter (\<lambda>r. r \<notin> pruned s np origin) (initialChildren s)"
      "\<And>p. p < nextRef s \<Longrightarrow> heap s' p =
        (heap s p)\<lparr>children := filter (\<lambda>r. r \<notin> pruned s np origin) (children (heap s p))\<rparr>"
      "nextRef s' = nextRef s"
      by auto
    show ?thesis
      using D(3,4,5,6) by (intro forest_shrink[OF f]) (auto simp: eff)
  next
    case Next
    with p have s': "s' = snd (next_pass s)" by (simp split: prod.splits)
    show ?thesis
    proof (cases "isDone s")
      case True
      then show ?thesis using f by (simp add: s' next_pass_done)
    next
      case False
      note F = next_pass_fields[OF False]
      have ch: "x < nextRef s" if "x \<in> childrenOf (heap s) (released s)" for x
        using that D(1) D(3) D(4) unfolding childrenOf_def by blast
      show ?thesis unfolding s'
        using D(3,5) ch by (intro forest_shrink[OF f]) (auto simp: F)
    qed
  next
    case Return
    with p have s': "s' = snd (subscribe_return env s)" by (simp split: prod.splits)
    show ?thesis unfolding s'
      using D(3,4,5,6) by (intro forest_shrink[OF f]) auto
  next
    case (Throw err)
    with p have s': "s' = snd (subscribe_throw env err s)" by (simp split: prod.splits)
    show ?thesis unfolding s'
      using D(3,4,5,6) by (intro forest_shrink[OF f]) auto
  qed
qed

lemma forest_run:
  "run env cs s = Some tr \<Longrightarrow> forest s \<Longrightarrow> forest (final s tr) \<and> (\<forall>(e, s') \<in> set tr. forest s')"
proof (induction cs arbitrary: s tr)
  case Nil
  then show ?case by (simp add: final_def)
next
  case (Cons c cs)
  from Cons.prems(1) obtain e s1 tr1 where
    st: "step env c s = Some (e, s1)" and r: "run env cs s1 = Some tr1" and tr: "tr = (e, s1) # tr1"
    by (auto split: option.splits)
  have f1: "forest s1" by (rule forest_step[OF st Cons.prems(2)])
  from Cons.IH[OF r f1] show ?case
    using f1 by (auto simp: tr final_def)
qed

section \<open>Evaluating concrete sessions\<close>

lemmas call_defs =
  step_def prepareNewDeferredFragmentRecord_def prepareNewStreamItemsRecord_def
  completeDeferredFragmentRecord_def completeStreamItemsRecord_def
  setIsCompletedAsyncIterator_def addFieldError_def publishInitial_def publish_def
  push_def introduce_def release_def delete_def trigger_def set_add_def set_delete_def
  DeferredFragmentRecord_def StreamItemsRecord_def isStreamItemsRecord_def
  init_def blank_def final_def state_after_def Let_def hasNext_def entry_def
  next_pass_def getIncrementalResult_def exhausted_def

section \<open>The frame of a pass\<close>

text \<open>
  C8.  A pass of \<^verbatim>\<open>_next\<close> that drains a batch emits one entry for every record of the
  batch that is not an exhausted stream record, in the order of the batch, and nothing for an
  exhausted one: no path, label, errors or items of it reach the frame.  So a batch of an
  exhausted record and another completed record gives a frame with the other record's entry
  only.  The frame's \<^verbatim>\<open>hasNext\<close> is true exactly when \<^verbatim>\<open>_pending\<close> is non-empty after the
  pass.  When no record of the batch contributes, the pass returns the bare
  \<^verbatim>\<open>{hasNext: false}\<close> (an exhausted record was in the batch and nothing is pending) or
  awaits the signal.
\<close>

theorem exhausted_contributes_nothing:
  assumes "\<not> isDone s" and "next_pass s = (out, s')"
  defines "live \<equiv> filter (\<lambda>r. \<not> exhausted (heap s r)) (released s)"
  shows "out =
     (if live \<noteq> []
      then Value \<lparr>incremental = Some (map (\<lambda>r. entry (heap s r)) live),
                  res_hasNext = (pending s' \<noteq> [])\<rparr>
      else if (\<exists>r \<in> set (released s). exhausted (heap s r)) \<and> pending s' = []
      then Value \<lparr>incremental = None, res_hasNext = False\<rparr>
      else Await (signalled s'))"
proof -
  have s': "s' = snd (next_pass s)" and out: "out = fst (next_pass s)"
    using assms(2) by simp_all
  show ?thesis
    unfolding s' out next_pass_cases[OF assms(1)] live_def
    by (simp add: loop_entries loop_enc hasNext_pending)
qed

theorem exhausted_contributes_nothing_witness:
  "\<not> isDone (state_after (\<lambda>_. Resolves) exhausted_session) \<and>
   released (state_after (\<lambda>_. Resolves) exhausted_session) = [0, 1] \<and>
   exhausted (heap (state_after (\<lambda>_. Resolves) exhausted_session) 0) \<and>
   fst (next_pass (state_after (\<lambda>_. Resolves) exhausted_session)) =
     Value \<lparr>incremental =
              Some [\<lparr>res_payload = Data (JObj [(''x'', JNum 1)]), res_path = [Key ''d''],
                     res_label = Some ''d'', res_errors = None\<rparr>],
            res_hasNext = True\<rparr> \<and>
   pending (snd (next_pass (state_after (\<lambda>_. Resolves) exhausted_session))) = [2]"
  using exhausted_contributes_nothing
    [of "state_after (\<lambda>_. Resolves) exhausted_session"
        "fst (next_pass (state_after (\<lambda>_. Resolves) exhausted_session))"
        "snd (next_pass (state_after (\<lambda>_. Resolves) exhausted_session))"]
  by (simp add: exhausted_session_def optsC_def optsD_def optsE_def call_defs)

lemma forest_final:
  assumes "run env cs init = Some tr"
  shows "forest (final init tr)"
  using forest_run[OF assms forest_init] by blast

lemma refs_ok_Filter:
  "refs_ok s (Filter np origin) \<Longrightarrow> (case origin of None \<Rightarrow> True | Some e \<Rightarrow> e < nextRef s)"
  by simp

section \<open>The filter engine\<close>

text \<open>
  C5.  In every state that a session reaches, a call \<^verbatim>\<open>filter(nullPath, origin)\<close> ends, and
  the state it leaves (when it returns, and also when a termination request makes it throw)
  has lost from \<^verbatim>\<open>_pending\<close>, from \<^verbatim>\<open>_released\<close> and from the children set of its parent (the
  initial result's for a record without parent) exactly the records of \<open>pruned\<close>: the
  descendants of the origin (of the initial result when there is no origin) whose path has
  the null path as a prefix.  Nothing else changes in the two sets or in any record.  A
  descendant whose path is shorter than the null path is not removed, and the test the code
  makes position by position is the prefix test.
\<close>

theorem filter_removes_exactly_prefixed_descendants:
  assumes "run env cs init = Some tr" and "s = final init tr"
    and "refs_ok s (Filter nullPathArray origin)"
  shows "\<exists>s'. filter_records env nullPathArray origin s = Some s' \<and>
     pending s' = filter (\<lambda>r. r \<notin> pruned s nullPathArray origin) (pending s) \<and>
     released s' = filter (\<lambda>r. r \<notin> pruned s nullPathArray origin) (released s) \<and>
     initialChildren s' = filter (\<lambda>r. r \<notin> pruned s nullPathArray origin) (initialChildren s) \<and>
     (\<forall>p < nextRef s. heap s' p =
        (heap s p)\<lparr>children :=
           filter (\<lambda>r. r \<notin> pruned s nullPathArray origin) (children (heap s p))\<rparr>) \<and>
     (\<forall>d. length (path (heap s d)) < length nullPathArray \<longrightarrow>
          d \<notin> pruned s nullPathArray origin) \<and>
     (\<forall>testPath. matchesPath testPath nullPathArray = prefix nullPathArray testPath)"
proof -
  have f: "forest s" using forest_final[OF assms(1)] assms(2) by simp
  have short: "d \<notin> pruned s nullPathArray origin"
    if "length (path (heap s d)) < length nullPathArray" for d
    using that prefix_length_le[of nullPathArray "path (heap s d)"] by (auto simp: pruned_def)
  from filter_records_effect[OF f refs_ok_Filter[OF assms(3)], of env nullPathArray]
  obtain s' where "filter_records env nullPathArray origin s = Some s'"
     "pending s' = filter (\<lambda>r. r \<notin> pruned s nullPathArray origin) (pending s)"
     "released s' = filter (\<lambda>r. r \<notin> pruned s nullPathArray origin) (released s)"
     "initialChildren s' = filter (\<lambda>r. r \<notin> pruned s nullPathArray origin) (initialChildren s)"
     "\<forall>p < nextRef s. heap s' p =
        (heap s p)\<lparr>children :=
           filter (\<lambda>r. r \<notin> pruned s nullPathArray origin) (children (heap s p))\<rparr>"
    by blast
  then show ?thesis using short matchesPath_prefix by blast
qed

text \<open>The session of four records, filtered at \<open>x\<close>: the two records under \<open>x\<close> go.\<close>

lemmas filter_eval =
  filter_records_def filter_call_def matchesPath_def matchesPath_from.simps at_def detach_def
  request_def

lemma filter_session_run: "run rejecting filter_session init \<noteq> None"
  by (simp add: filter_session_def optsX_def optsZ_def optsX0_def optsTop_def call_defs)

theorem filter_removes_exactly_prefixed_descendants_witness:
  "run rejecting filter_session init \<noteq> None \<and>
   refs_ok (state_after rejecting filter_session) (Filter [Key ''x''] None) \<and>
   pending (state_after rejecting filter_session) = [0, 1, 3] \<and>
   pruned (state_after rejecting filter_session) [Key ''x''] None = {0, 2} \<and>
   (\<exists>s'. filter_records rejecting [Key ''x''] None (state_after rejecting filter_session) = Some s' \<and>
      pending s' = [1, 3] \<and> initialChildren s' = [1, 3] \<and> children (heap s' 1) = [])"
proof -
  obtain tr where tr: "run rejecting filter_session init = Some tr"
    using filter_session_run by blast
  have s: "state_after rejecting filter_session = final init tr"
    by (simp add: state_after_def tr)
  have ok: "refs_ok (state_after rejecting filter_session) (Filter [Key ''x''] None)"
    by simp
  have vals: "pending (state_after rejecting filter_session) = [0, 1, 3]"
    "initialChildren (state_after rejecting filter_session) = [0, 1, 3]"
    "children (heap (state_after rejecting filter_session) (Suc 0)) = [2]"
    "children (heap (state_after rejecting filter_session) 0) = []"
    "children (heap (state_after rejecting filter_session) 2) = []"
    "children (heap (state_after rejecting filter_session) 3) = []"
    "path (heap (state_after rejecting filter_session) 0) = [Key ''x'', Key ''y'']"
    "path (heap (state_after rejecting filter_session) (Suc 0)) = [Key ''z'']"
    "path (heap (state_after rejecting filter_session) 2) = [Key ''x'', Index 0]"
    "path (heap (state_after rejecting filter_session) 3) = []"
    "nextRef (state_after rejecting filter_session) = 4"
    by (simp_all add: filter_session_def optsX_def optsZ_def optsX0_def optsTop_def call_defs)
  have pr: "pruned (state_after rejecting filter_session) [Key ''x''] None = {0, 2}"
    by (auto simp: pruned_def origin_children_def vals descendants_Cons)
  from filter_removes_exactly_prefixed_descendants[OF tr s ok]
  obtain s' where
    "filter_records rejecting [Key ''x''] None (state_after rejecting filter_session) = Some s'"
    "pending s' = filter (\<lambda>r. r \<notin> {0, 2}) [0, 1, 3]"
    "initialChildren s' = filter (\<lambda>r. r \<notin> {0, 2}) [0, 1, 3]"
    "heap s' 1 = (heap (state_after rejecting filter_session) 1)\<lparr>children :=
           filter (\<lambda>r. r \<notin> {0, 2}) [2]\<rparr>"
    unfolding pr by (auto simp: vals)
  then show ?thesis
    using filter_session_run ok vals(1) pr by simp
qed

lemma matchesPath_empty: "matchesPath testPath []"
  by (simp add: matchesPath_prefix)

lemma pruned_empty: "pruned s [] origin = descendants (heap s) (origin_children s origin)"
  by (simp add: pruned_def)

lemma filter_notin_all: "set xs \<subseteq> A \<Longrightarrow> filter (\<lambda>r. r \<notin> A) xs = []"
  by (induction xs) auto

text \<open>
  C10.  With the empty null path the path test holds for every record, so in every state
  that a session reaches \<^verbatim>\<open>filter\<close> removes every descendant of the origin (every record
  of the tree when there is no origin) from \<^verbatim>\<open>_pending\<close>, from \<^verbatim>\<open>_released\<close> and from its
  parent's children set; the children set the traversal started from ends empty.
\<close>

theorem filter_empty_path_removes_every_descendant:
  assumes "run env cs init = Some tr" and "s = final init tr"
    and "refs_ok s (Filter [] origin)"
  shows "(\<forall>testPath. matchesPath testPath []) \<and>
     (\<exists>s'. filter_records env [] origin s = Some s' \<and>
        pending s' =
          filter (\<lambda>r. r \<notin> descendants (heap s) (origin_children s origin)) (pending s) \<and>
        released s' =
          filter (\<lambda>r. r \<notin> descendants (heap s) (origin_children s origin)) (released s) \<and>
        initialChildren s' =
          filter (\<lambda>r. r \<notin> descendants (heap s) (origin_children s origin)) (initialChildren s) \<and>
        (\<forall>p < nextRef s. children (heap s' p) =
          filter (\<lambda>r. r \<notin> descendants (heap s) (origin_children s origin)) (children (heap s p))) \<and>
        origin_children s' origin = [])"
proof -
  have f: "forest s" using forest_final[OF assms(1)] assms(2) by simp
  let ?D = "descendants (heap s) (origin_children s origin)"
  from filter_records_effect[OF f refs_ok_Filter[OF assms(3)], of env "[]"]
  obtain s' where s': "filter_records env [] origin s = Some s'"
     "pending s' = filter (\<lambda>r. r \<notin> ?D) (pending s)"
     "released s' = filter (\<lambda>r. r \<notin> ?D) (released s)"
     "initialChildren s' = filter (\<lambda>r. r \<notin> ?D) (initialChildren s)"
     and h: "\<forall>p < nextRef s. heap s' p = (heap s p)\<lparr>children := filter (\<lambda>r. r \<notin> ?D) (children (heap s p))\<rparr>"
    unfolding pruned_empty by blast
  have ch: "\<forall>p < nextRef s. children (heap s' p) = filter (\<lambda>r. r \<notin> ?D) (children (heap s p))"
    using h by simp
  have sub: "set (origin_children s origin) \<subseteq> ?D"
    by (auto intro: descendants.top)
  have "origin_children s' origin = filter (\<lambda>r. r \<notin> ?D) (origin_children s origin)"
  proof (cases origin)
    case None
    then show ?thesis by (simp add: origin_children_def s'(4))
  next
    case (Some e)
    then have "e < nextRef s" using assms(3) by simp
    then show ?thesis using ch Some by (simp add: origin_children_def)
  qed
  then have "origin_children s' origin = []"
    using filter_notin_all[OF sub] by simp
  then show ?thesis
    using s' ch matchesPath_empty by blast
qed

theorem filter_empty_path_removes_every_descendant_witness:
  "run rejecting filter_session init \<noteq> None \<and>
   refs_ok (state_after rejecting filter_session) (Filter [] None) \<and>
   pending (state_after rejecting filter_session) = [0, 1, 3] \<and>
   descendants (heap (state_after rejecting filter_session))
     (origin_children (state_after rejecting filter_session) None) = {0, 1, 2, 3} \<and>
   (\<exists>s'. filter_records rejecting [] None (state_after rejecting filter_session) = Some s' \<and>
      pending s' = [] \<and> released s' = [] \<and> initialChildren s' = [] \<and>
      children (heap s' 1) = [])"
proof -
  obtain tr where tr: "run rejecting filter_session init = Some tr"
    using filter_session_run by blast
  have s: "state_after rejecting filter_session = final init tr"
    by (simp add: state_after_def tr)
  have ok: "refs_ok (state_after rejecting filter_session) (Filter [] None)"
    by simp
  have vals: "pending (state_after rejecting filter_session) = [0, 1, 3]"
    "released (state_after rejecting filter_session) = []"
    "initialChildren (state_after rejecting filter_session) = [0, 1, 3]"
    "children (heap (state_after rejecting filter_session) (Suc 0)) = [2]"
    "children (heap (state_after rejecting filter_session) 0) = []"
    "children (heap (state_after rejecting filter_session) 2) = []"
    "children (heap (state_after rejecting filter_session) 3) = []"
    "nextRef (state_after rejecting filter_session) = 4"
    by (simp_all add: filter_session_def optsX_def optsZ_def optsX0_def optsTop_def call_defs)
  have ds: "descendants (heap (state_after rejecting filter_session))
     (origin_children (state_after rejecting filter_session) None) = {0, 1, 2, 3}"
    by (auto simp: origin_children_def vals descendants_Cons)
  from filter_empty_path_removes_every_descendant[OF tr s ok]
  obtain s' where
    "filter_records rejecting [] None (state_after rejecting filter_session) = Some s'"
    "pending s' = filter (\<lambda>r. r \<notin> {0, 1, 2, 3}) [0, 1, 3]"
    "released s' = []"
    "initialChildren s' = filter (\<lambda>r. r \<notin> {0, 1, 2, 3}) [0, 1, 3]"
    "children (heap s' 1) = filter (\<lambda>r. r \<notin> {0, 1, 2, 3}) [2]"
    unfolding ds by (auto simp: vals)
  then show ?thesis
    using filter_session_run ok vals(1) ds by simp
qed

lemma count_list_distinct:
  "distinct xs \<Longrightarrow> count_list xs a = (if a \<in> set xs then 1 else 0)"
  by (induction xs) auto

text \<open>
  In every state that a session reaches: when the \<^verbatim>\<open>return\<close> method of every source that
  belongs to a removed stream record hands back a promise, one call of \<^verbatim>\<open>filter\<close> returns and
  has called \<^verbatim>\<open>return()\<close> exactly once on every such source that has the method, however many
  removed records share the source, and on no other source.
\<close>

lemma filter_requests_each_promising_source_once:
  assumes "run env cs init = Some tr" and "s = final init tr"
    and "refs_ok s (Filter nullPathArray origin)"
    and pr: "\<And>d a. d \<in> pruned s nullPathArray origin \<Longrightarrow> isStreamItemsRecord (heap s d) \<Longrightarrow>
               asyncIterator (heap s d) = Some a \<Longrightarrow> returns_promise (env a)"
  shows "\<exists>s' calls. filter_call env nullPathArray origin s = Some (None, s') \<and>
     returned s' = returned s @ calls \<and>
     (\<forall>a. count_list calls a =
        (if env a \<noteq> NoReturn \<and>
            (\<exists>d \<in> pruned s nullPathArray origin.
               isStreamItemsRecord (heap s d) \<and> asyncIterator (heap s d) = Some a)
         then 1 else 0))"
proof -
  have f: "forest s" using forest_final[OF assms(1)] assms(2) by simp
  from filter_records_effect[OF f refs_ok_Filter[OF assms(3)], of env nullPathArray]
  obtain s' its thrown where s': "filter_call env nullPathArray origin s = Some (thrown, s')"
    and r: "(\<forall>a \<in> set its. returns_promise (env a)) \<longrightarrow>
              thrown = None \<and> returned s' = returned s @ filter (\<lambda>a. env a \<noteq> NoReturn) its"
    and d: "distinct its"
    and its: "set its = {a. \<exists>d \<in> pruned s nullPathArray origin.
                  isStreamItemsRecord (heap s d) \<and> asyncIterator (heap s d) = Some a}"
    by blast
  have "\<forall>a \<in> set its. returns_promise (env a)"
    unfolding its using pr by blast
  with r have t: "thrown = None"
    and r': "returned s' = returned s @ filter (\<lambda>a. env a \<noteq> NoReturn) its"
    by blast+
  have "count_list (filter (\<lambda>a. env a \<noteq> NoReturn) its) a =
        (if env a \<noteq> NoReturn \<and>
            (\<exists>d \<in> pruned s nullPathArray origin.
               isStreamItemsRecord (heap s d) \<and> asyncIterator (heap s d) = Some a)
         then 1 else 0)" for a
    using d its by (subst count_list_distinct) auto
  then show ?thesis using s' r' t by blast
qed

lemmas two_sources_defs = two_sources_session_def optsX_def optsW_def throwing_def

text \<open>
  C6, evaluated.  Two stream records under \<open>x\<close>, with the sources 5 and 6, are pending; both
  sources have a \<^verbatim>\<open>return\<close> method, and that of source 5 throws.  One call of \<^verbatim>\<open>filter\<close> at \<open>x\<close>
  removes both records and collects both sources.  It calls \<^verbatim>\<open>return()\<close> on source 5; the
  exception leaves the loop over the collected sources and \<^verbatim>\<open>filter\<close>, and source 6 has
  received no call.
\<close>

theorem filter_abandons_sources_after_throwing_return:
  "pending (state_after throwing two_sources_session) = [0, 1] \<and>
   isStreamItemsRecord (heap (state_after throwing two_sources_session) 0) \<and>
   asyncIterator (heap (state_after throwing two_sources_session) 0) = Some 5 \<and>
   isStreamItemsRecord (heap (state_after throwing two_sources_session) 1) \<and>
   asyncIterator (heap (state_after throwing two_sources_session) 1) = Some 6 \<and>
   throwing 5 = Throws ''boom'' \<and> throwing 6 = Resolves \<and>
   returned (state_after throwing two_sources_session) = [] \<and>
   map_option fst (filter_call throwing [Key ''x''] None (state_after throwing two_sources_session)) =
     Some (Some ''boom'') \<and>
   map_option pending
     (filter_records throwing [Key ''x''] None (state_after throwing two_sources_session)) = Some [] \<and>
   map_option returned
     (filter_records throwing [Key ''x''] None (state_after throwing two_sources_session)) = Some [5] \<and>
   map_option (\<lambda>s'. count_list (returned s') 6)
     (filter_records throwing [Key ''x''] None (state_after throwing two_sources_session)) = Some 0"
  by (simp add: two_sources_defs call_defs filter_eval)

section \<open>Pulls that do not return\<close>

text \<open>
  C1, evaluated.  A pull on the fresh publisher, where \<^verbatim>\<open>_pending\<close> and \<^verbatim>\<open>_released\<close> are
  empty, reaches \<^verbatim>\<open>await this._signalled\<close> and stays there.  And in the session where
  record A is pending and has not completed, a pull suspends; \<^verbatim>\<open>filter\<close> at the root then
  removes A and wakes the pull; the woken pass sets \<^verbatim>\<open>isDone\<close>, finds no result and awaits
  the next promise, number 1, which is the current one and is not resolved: the pull has
  returned nothing, with \<^verbatim>\<open>_pending\<close> and \<^verbatim>\<open>_released\<close> empty.
\<close>

theorem pull_suspends_with_nothing_pending:
  "fst (next_pass init) = Await 0 \<and>
   fst (subscribe_next resolving [] init) = Await 0 \<and>
   pending (state_after resolving blocked_session) = [0] \<and>
   released (state_after resolving blocked_session) = [] \<and>
   fst (subscribe_next resolving [Filter [] None] (state_after resolving blocked_session)) = Await 1 \<and>
   pending (snd (subscribe_next resolving [Filter [] None] (state_after resolving blocked_session))) = [] \<and>
   released (snd (subscribe_next resolving [Filter [] None] (state_after resolving blocked_session))) = [] \<and>
   isDone (snd (subscribe_next resolving [Filter [] None] (state_after resolving blocked_session))) \<and>
   signalled (snd (subscribe_next resolving [Filter [] None] (state_after resolving blocked_session))) = 1"
  by (simp add: subscribe_next.simps call_defs blocked_session_def optsA_def filter_eval resolving_def)

text \<open>
  The same in general: with both sets empty, the first pass of a pull sets \<^verbatim>\<open>isDone\<close> and
  awaits the current promise, which nothing has resolved.
\<close>

lemma idle_pass_awaits:
  assumes "pending s = []" and "released s = []" and "\<not> isDone s"
  shows "fst (next_pass s) = Await (signalled s)" and "isDone (snd (next_pass s))"
    and "signalled (snd (next_pass s)) = signalled s"
  using assms by (simp_all add: next_pass_def getIncrementalResult_def hasNext_def)

section \<open>Errors of termination requests\<close>

text \<open>
  C3, evaluated.  In the session of four records the stream record at \<open>x.y\<close> is pending, and
  its source rejects a termination request with \<open>boom\<close>.  \<^verbatim>\<open>filter\<close> at \<open>x\<close> requests the
  termination and returns: it catches the rejection.  The caller of \<^verbatim>\<open>return()\<close> and the
  caller of \<^verbatim>\<open>throw(given)\<close> both receive \<open>boom\<close>: \<^verbatim>\<open>returnStreamIterators\<close> awaits the
  requests and catches nothing, so the promise of \<^verbatim>\<open>_return\<close> rejects, and the promise of
  \<^verbatim>\<open>_throw\<close> rejects with \<open>boom\<close> in place of the error it was given.  And where the
  \<^verbatim>\<open>return\<close> method throws instead of rejecting, \<^verbatim>\<open>filter\<close> ends with that exception.
\<close>

theorem return_and_throw_surface_cancellation_failure:
  "pending (state_after rejecting filter_session) = [0, 1, 3] \<and>
   isStreamItemsRecord (heap (state_after rejecting filter_session) 0) \<and>
   asyncIterator (heap (state_after rejecting filter_session) 0) = Some 5 \<and>
   rejecting 5 = Rejects 0 ''boom'' \<and>
   map_option fst (filter_call rejecting [Key ''x''] None (state_after rejecting filter_session)) =
     Some None \<and>
   fst (subscribe_return rejecting (state_after rejecting filter_session)) = Rejected ''boom'' \<and>
   fst (subscribe_throw rejecting ''given'' (state_after rejecting filter_session)) = Rejected ''boom'' \<and>
   fst (subscribe_return resolving (state_after rejecting filter_session)) = Fulfilled_done \<and>
   fst (subscribe_throw resolving ''given'' (state_after rejecting filter_session)) = Rejected ''given'' \<and>
   map_option fst (filter_call throwing [Key ''x''] None (state_after throwing two_sources_session)) =
     Some (Some ''boom'')"
  by (simp add: filter_session_def optsX_def optsZ_def optsX0_def optsTop_def call_defs
        rejecting_def resolving_def subscribe_return_def subscribe_throw_def
        returnStreamIterators_def filter_eval two_sources_defs)

section \<open>Sessions and their invariants\<close>

lemma run_Cons_Some:
  assumes "run env (c # cs) s = Some tr"
  obtains e s1 tr1 where "step env c s = Some (e, s1)" "run env cs s1 = Some tr1"
    "tr = (e, s1) # tr1"
  using assms by (auto split: option.splits)

lemma run_length: "run env cs s = Some tr \<Longrightarrow> length tr = length cs"
proof (induction cs arbitrary: s tr)
  case Nil
  then show ?case by simp
next
  case (Cons c cs)
  from Cons.prems obtain e s1 tr1 where "run env cs s1 = Some tr1" "tr = (e, s1) # tr1"
    by (rule run_Cons_Some)
  then show ?case using Cons.IH by simp
qed

lemma final_Cons: "final s ((e, s1) # tr) = final s1 tr"
  by (simp add: final_def)

lemma run_take:
  "run env cs s = Some tr \<Longrightarrow> run env (take n cs) s = Some (take n tr)"
proof (induction cs arbitrary: s tr n)
  case Nil
  then show ?case by simp
next
  case (Cons c cs)
  from Cons.prems obtain e s1 tr1 where st: "step env c s = Some (e, s1)"
    and r: "run env cs s1 = Some tr1" and tr: "tr = (e, s1) # tr1"
    by (rule run_Cons_Some)
  show ?case
  proof (cases n)
    case 0
    then show ?thesis by simp
  next
    case (Suc m)
    then show ?thesis using Cons.IH[OF r, of m] st by (simp add: tr)
  qed
qed

lemma run_drop:
  "run env cs s = Some tr \<Longrightarrow> run env (drop n cs) (final s (take n tr)) = Some (drop n tr)"
proof (induction cs arbitrary: s tr n)
  case Nil
  then show ?case by (simp add: final_def)
next
  case (Cons c cs)
  from Cons.prems obtain e s1 tr1 where st: "step env c s = Some (e, s1)"
    and r: "run env cs s1 = Some tr1" and tr: "tr = (e, s1) # tr1"
    by (rule run_Cons_Some)
  show ?case
  proof (cases n)
    case 0
    then show ?thesis using Cons.prems by (simp add: final_def)
  next
    case (Suc m)
    then show ?thesis using Cons.IH[OF r, of m] by (simp add: tr final_Cons)
  qed
qed

lemma final_take_Suc:
  "i < length tr \<Longrightarrow> final s (take (Suc i) tr) = snd (tr ! i)"
  by (simp add: final_def take_Suc_conv_app_nth)

lemma drained_all_simps [simp]:
  "drained_all [] = {}"
  "drained_all (x # tr) = set (drained (fst x)) \<union> drained_all tr"
  "drained_all (tr @ tr') = drained_all tr \<union> drained_all tr'"
  by (auto simp: drained_all_def)

lemma in_drained_all_take:
  "p \<in> drained_all (take i tr) \<longleftrightarrow> (\<exists>j < i. j < length tr \<and> p \<in> set (drained (fst (tr ! j))))"
proof
  assume "p \<in> drained_all (take i tr)"
  then obtain x where x: "x \<in> set (take i tr)" and p: "p \<in> set (drained (fst x))"
    by (auto simp: drained_all_def)
  from x obtain j where "j < length (take i tr)" "take i tr ! j = x"
    by (auto simp: in_set_conv_nth)
  then have "j < i" "j < length tr" "tr ! j = x" by simp_all
  then show "\<exists>j < i. j < length tr \<and> p \<in> set (drained (fst (tr ! j)))"
    using p by blast
next
  assume "\<exists>j < i. j < length tr \<and> p \<in> set (drained (fst (tr ! j)))"
  then obtain j where j: "j < i" "j < length tr" and p: "p \<in> set (drained (fst (tr ! j)))"
    by blast
  then have "j < length (take i tr)" "take i tr ! j = tr ! j" by simp_all
  then have "tr ! j \<in> set (take i tr)" by (metis nth_mem)
  then show "p \<in> drained_all (take i tr)"
    using p by (auto simp: drained_all_def)
qed

lemma step_Next:
  assumes "step env Next s = Some (e, s')"
  shows "e = Pulled (if isDone s then [] else released s) (fst (next_pass s))"
    and "s' = snd (next_pass s)"
proof -
  obtain out s1 where n: "next_pass s = (out, s1)" by (cases "next_pass s")
  with assms have "e = Pulled (if isDone s then [] else released s) out" "s' = s1"
    by (simp_all add: step_def)
  then show "e = Pulled (if isDone s then [] else released s) (fst (next_pass s))"
    and "s' = snd (next_pass s)"
    by (simp_all add: n)
qed

lemma step_effect:
  assumes st: "step env c s = Some (e, s')" and f: "forest s"
  shows "nextRef s \<le> nextRef s'"
    and "\<And>x. x < nextRef s \<Longrightarrow> parentContext (heap s' x) = parentContext (heap s x)"
    and "set (drained e) \<subseteq> set (pending s)" and "distinct (drained e)"
    and "set (pending s') \<subseteq>
           (set (pending s) - set (drained e)) \<union>
           (if c = PublishInitial then set (initialChildren s) else {}) \<union>
           childrenOf (heap s) (drained e)"
    and "c \<noteq> Next \<Longrightarrow> drained e = []"
proof -
  note ok = step_SomeD(1)[OF st] and p = step_SomeD(2)[OF st]
  note D = forestD[OF f]
  have "nextRef s \<le> nextRef s' \<and>
    (\<forall>x < nextRef s. parentContext (heap s' x) = parentContext (heap s x)) \<and>
    set (drained e) \<subseteq> set (pending s) \<and> distinct (drained e) \<and>
    set (pending s') \<subseteq>
           (set (pending s) - set (drained e)) \<union>
           (if c = PublishInitial then set (initialChildren s) else {}) \<union>
           childrenOf (heap s) (drained e) \<and>
    (c \<noteq> Next \<longrightarrow> drained e = [])"
  proof (cases c)
    case (PrepareNewDeferredFragmentRecord opt)
    with p have "s' = attach opt (DeferredFragmentRecord opt) s" "e = Created (nextRef s)"
      by (simp_all add: prepare_attach)
    then show ?thesis using PrepareNewDeferredFragmentRecord
      by (simp add: attach_old childrenOf_def)
  next
    case (PrepareNewStreamItemsRecord opt)
    with p have "s' = attach opt (StreamItemsRecord opt) s" "e = Created (nextRef s)"
      by (simp_all add: prepare_attach)
    then show ?thesis using PrepareNewStreamItemsRecord
      by (simp add: attach_old childrenOf_def)
  next
    case (CompleteDeferredFragmentRecord r d)
    with p have "s' = completeDeferredFragmentRecord r d s" "e = Quiet" by simp_all
    then show ?thesis using CompleteDeferredFragmentRecord by (simp add: childrenOf_def)
  next
    case (CompleteStreamItemsRecord r its)
    with p have "s' = completeStreamItemsRecord r its s" "e = Quiet" by simp_all
    then show ?thesis using CompleteStreamItemsRecord by (simp add: childrenOf_def)
  next
    case (SetIsCompletedAsyncIterator r)
    with p have "s' = setIsCompletedAsyncIterator r s" "e = Quiet" by simp_all
    then show ?thesis using SetIsCompletedAsyncIterator by (simp add: childrenOf_def)
  next
    case (AddFieldError r err)
    with p have "s' = addFieldError r err s" "e = Quiet" by simp_all
    then show ?thesis using AddFieldError by (simp add: childrenOf_def)
  next
    case PublishInitial
    with p have "s' = publishInitial s" "e = Quiet" by simp_all
    then show ?thesis using PublishInitial by (simp add: childrenOf_def publishInitial_sets)
  next
    case (Filter np origin)
    from p have fr: "filter_records env np origin s = Some s'" and e: "drained e = []"
      unfolding Filter by (rule perform_Filter(1), rule perform_Filter(2))
    have ok': "case origin of None \<Rightarrow> True | Some e \<Rightarrow> e < nextRef s"
      using ok Filter by simp
    from filter_records_effect[OF f ok', of env np] fr
    have eff: "pending s' = filter (\<lambda>r. r \<notin> pruned s np origin) (pending s)"
      "\<And>p. p < nextRef s \<Longrightarrow> heap s' p =
        (heap s p)\<lparr>children := filter (\<lambda>r. r \<notin> pruned s np origin) (children (heap s p))\<rparr>"
      "nextRef s' = nextRef s"
      by auto
    show ?thesis using Filter e by (auto simp: eff childrenOf_def)
  next
    case Next
    note N = step_Next[OF st[unfolded Next]]
    show ?thesis
    proof (cases "isDone s")
      case True
      then show ?thesis using N Next by (simp add: next_pass_done childrenOf_def)
    next
      case False
      note F = next_pass_fields[OF False]
      have "drained e = released s" using N(1) False by simp
      then show ?thesis using Next D(4,6) by (auto simp: N(2) F)
    qed
  next
    case Return
    with p have "s' = snd (subscribe_return env s)" "e = Settled (fst (subscribe_return env s))"
      by (simp_all split: prod.splits)
    then show ?thesis using Return by (simp add: childrenOf_def)
  next
    case (Throw err)
    with p have "s' = snd (subscribe_throw env err s)"
      "e = Settled (fst (subscribe_throw env err s))"
      by (simp_all split: prod.splits)
    then show ?thesis using Throw by (simp add: childrenOf_def)
  qed
  then show "nextRef s \<le> nextRef s'"
    and "\<And>x. x < nextRef s \<Longrightarrow> parentContext (heap s' x) = parentContext (heap s x)"
    and "set (drained e) \<subseteq> set (pending s)" and "distinct (drained e)"
    and "set (pending s') \<subseteq>
           (set (pending s) - set (drained e)) \<union>
           (if c = PublishInitial then set (initialChildren s) else {}) \<union>
           childrenOf (heap s) (drained e)"
    and "c \<noteq> Next \<Longrightarrow> drained e = []"
    by blast+
qed

lemma childrenOf_parent:
  assumes f: "forest s" and "set rs \<subseteq> set (pending s)" and "c \<in> childrenOf (heap s) rs"
  shows "\<exists>p \<in> set rs. parentContext (heap s c) = Some p" and "c < nextRef s"
proof -
  from assms(3) obtain p where p: "p \<in> set rs" "c \<in> set (children (heap s p))"
    by (auto simp: childrenOf_def)
  then have "p < nextRef s" using assms(2) forestD(3)[OF f] by blast
  from forestD(1)[OF f this p(2)] p(1)
  show "\<exists>p \<in> set rs. parentContext (heap s c) = Some p" and "c < nextRef s" by auto
qed

lemma step_ordered:
  assumes st: "step env c s = Some (e, s')" and f: "forest s" and o: "ordered s D"
  shows "ordered s' (D \<union> set (drained e))"
    and "\<forall>r \<in> set (drained e). \<forall>p. parentContext (heap s' r) = Some p \<longrightarrow> p \<in> D"
proof -
  note E = step_effect[OF st f]
  note D = forestD[OF f]
  show "ordered s' (D \<union> set (drained e))"
    unfolding ordered_def
  proof (intro ballI allI impI)
    fix r p assume r: "r \<in> set (pending s')" and p: "parentContext (heap s' r) = Some p"
    from r E(5) consider "r \<in> set (pending s)" | "r \<in> set (initialChildren s)"
      | "r \<in> childrenOf (heap s) (drained e)"
      by (auto split: if_splits)
    then show "p \<in> D \<union> set (drained e)"
    proof cases
      case 1
      then have "r < nextRef s" using D(3) by blast
      then have "parentContext (heap s r) = Some p" using E(2) p by simp
      then show ?thesis using o 1 unfolding ordered_def by blast
    next
      case 2
      then have "r < nextRef s" "parentContext (heap s r) = None" using D(2) by blast+
      then show ?thesis using E(2) p by simp
    next
      case 3
      from childrenOf_parent[OF f E(3) 3] E(2) p show ?thesis by auto
    qed
  qed
  show "\<forall>r \<in> set (drained e). \<forall>p. parentContext (heap s' r) = Some p \<longrightarrow> p \<in> D"
  proof (intro ballI allI impI)
    fix r p assume r: "r \<in> set (drained e)" and p: "parentContext (heap s' r) = Some p"
    then have r': "r \<in> set (pending s)" using E(3) by blast
    then have "r < nextRef s" using D(3) by blast
    then have "parentContext (heap s r) = Some p" using E(2) p by simp
    then show "p \<in> D" using o r' unfolding ordered_def by blast
  qed
qed

lemma run_ordered:
  assumes "run env cs s = Some tr" and "forest s" and "ordered s D" and "i < length tr"
  shows "ordered (snd (tr ! i)) (D \<union> drained_all (take (Suc i) tr))"
    and "\<forall>r \<in> set (drained (fst (tr ! i))). \<forall>p.
           parentContext (heap (snd (tr ! i)) r) = Some p \<longrightarrow> p \<in> D \<union> drained_all (take i tr)"
  using assms
proof (induction cs arbitrary: s D tr i)
  case Nil
  { case 1 then show ?case by simp }
  { case 2 then show ?case by simp }
next
  case (Cons c cs)
  { case 1
    from 1(1) obtain e s1 tr1 where st: "step env c s = Some (e, s1)"
      and r: "run env cs s1 = Some tr1" and tr: "tr = (e, s1) # tr1"
      by (rule run_Cons_Some)
    note S = step_ordered[OF st 1(2) 1(3)]
    have f1: "forest s1" by (rule forest_step[OF st 1(2)])
    show ?case
    proof (cases i)
      case 0
      then show ?thesis using S(1) by (simp add: tr)
    next
      case (Suc k)
      then have "k < length tr1" using 1(4) tr by simp
      from Cons.IH(1)[OF r f1 S(1) this] show ?thesis
        by (simp add: tr Suc Un_assoc)
    qed }
  { case 2
    from 2(1) obtain e s1 tr1 where st: "step env c s = Some (e, s1)"
      and r: "run env cs s1 = Some tr1" and tr: "tr = (e, s1) # tr1"
      by (rule run_Cons_Some)
    note S = step_ordered[OF st 2(2) 2(3)]
    have f1: "forest s1" by (rule forest_step[OF st 2(2)])
    show ?case
    proof (cases i)
      case 0
      then show ?thesis using S(2) by (simp add: tr)
    next
      case (Suc k)
      then have "k < length tr1" using 2(4) tr by simp
      from Cons.IH(2)[OF r f1 S(1) this] show ?thesis
        by (simp add: tr Suc Un_assoc)
    qed }
qed

lemma ordered_init: "ordered init {}"
  by (simp add: ordered_def init_def)

lemma onceD:
  assumes "once s D P"
  shows "ordered s D" and "set (pending s) \<inter> D = {}" and "\<And>r. r \<in> D \<Longrightarrow> r < nextRef s"
    and "\<And>r p. r \<in> D \<Longrightarrow> parentContext (heap s r) = Some p \<Longrightarrow> p \<in> D"
    and "\<And>r. r \<in> set (pending s) \<union> D \<Longrightarrow> parentContext (heap s r) = None \<Longrightarrow> P"
  using assms unfolding once_def by blast+

lemma once_init: "once init {} False"
  by (simp add: once_def ordered_def init_def)

lemma step_once:
  assumes st: "step env c s = Some (e, s')" and f: "forest s" and o: "once s D P"
    and pub: "c = PublishInitial \<Longrightarrow> \<not> P"
  shows "once s' (D \<union> set (drained e)) (P \<or> c = PublishInitial)"
    and "set (drained e) \<inter> D = {}"
proof -
  note E = step_effect[OF st f]
  note F = forestD[OF f]
  note O = onceD[OF o]
  note S = step_ordered[OF st f O(1)]
  show dis: "set (drained e) \<inter> D = {}" using E(3) O(2) by blast
  have par: "parentContext (heap s' r) = parentContext (heap s r)" if "r \<in> set (pending s) \<union> D" for r
    using that E(2)[of r] F(3)[of r] O(3)[of r] by blast
  show "once s' (D \<union> set (drained e)) (P \<or> c = PublishInitial)"
    unfolding once_def
  proof (intro conjI)
    show "ordered s' (D \<union> set (drained e))" by (rule S(1))
  next
    have "r \<notin> D \<union> set (drained e)" if r: "r \<in> set (pending s')" for r
    proof -
      from r E(5) consider "r \<in> set (pending s) - set (drained e)"
        | "c = PublishInitial" "r \<in> set (initialChildren s)"
        | "r \<in> childrenOf (heap s) (drained e)"
        by (auto split: if_splits)
      then show ?thesis
      proof cases
        case 1
        then show ?thesis using O(2) by blast
      next
        case 2
        then have root: "parentContext (heap s r) = None" using F(2) by blast
        have "drained e = []" using E(6) 2(1) by simp
        moreover have "r \<notin> D" using O(5)[of r] root pub[OF 2(1)] by blast
        ultimately show ?thesis by simp
      next
        case 3
        from childrenOf_parent(1)[OF f E(3) 3] obtain p where
          p: "p \<in> set (drained e)" "parentContext (heap s r) = Some p" by blast
        then have pD: "p \<notin> D" using dis by blast
        have "r \<notin> D" using O(4)[of r p] p(2) pD by blast
        moreover have "r \<notin> set (drained e)"
        proof
          assume "r \<in> set (drained e)"
          then have "r \<in> set (pending s)" using E(3) by blast
          then have "p \<in> D" using O(1) p(2) unfolding ordered_def by blast
          then show False using pD by blast
        qed
        ultimately show ?thesis by blast
      qed
    qed
    then show "set (pending s') \<inter> (D \<union> set (drained e)) = {}" by blast
  next
    show "\<forall>r \<in> D \<union> set (drained e). r < nextRef s'"
      using O(3) E(1,3) F(3) by (meson UnE le_trans less_le_trans not_less subsetD leD leI order.strict_trans2)
  next
    show "\<forall>r \<in> D \<union> set (drained e). \<forall>p. parentContext (heap s' r) = Some p \<longrightarrow> p \<in> D \<union> set (drained e)"
    proof (intro ballI allI impI)
      fix r p assume r: "r \<in> D \<union> set (drained e)" and p: "parentContext (heap s' r) = Some p"
      show "p \<in> D \<union> set (drained e)"
      proof (cases "r \<in> D")
        case True
        then have "parentContext (heap s r) = Some p" using par[of r] p by simp
        then show ?thesis using O(4)[OF True] by blast
      next
        case False
        then have "r \<in> set (drained e)" using r by blast
        then show ?thesis using S(2) p by blast
      qed
    qed
  next
    show "\<forall>r \<in> set (pending s') \<union> (D \<union> set (drained e)).
            parentContext (heap s' r) = None \<longrightarrow> P \<or> c = PublishInitial"
    proof (intro ballI impI)
      fix r assume r: "r \<in> set (pending s') \<union> (D \<union> set (drained e))"
        and root: "parentContext (heap s' r) = None"
      from r E(5) E(3) consider "r \<in> set (pending s) \<union> D"
        | "c = PublishInitial"
        | "r \<in> childrenOf (heap s) (drained e)"
        by (auto split: if_splits)
      then show "P \<or> c = PublishInitial"
      proof cases
        case 1
        then show ?thesis using O(5)[OF 1] par[OF 1] root by simp
      next
        case 2
        then show ?thesis by simp
      next
        case 3
        from childrenOf_parent[OF f E(3) 3] E(2)[of r] root show ?thesis by auto
      qed
    qed
  qed
qed

lemma set_concat_drained: "set (concat (map (drained \<circ> fst) tr)) = drained_all tr"
  by (auto simp: drained_all_def)

lemma run_once:
  assumes "run env cs s = Some tr" and "forest s" and "once s D P"
    and "if P then PublishInitial \<notin> set cs else count_list cs PublishInitial \<le> 1"
  shows "distinct (concat (map (drained \<circ> fst) tr)) \<and> drained_all tr \<inter> D = {} \<and>
         once (final s tr) (D \<union> drained_all tr) (P \<or> PublishInitial \<in> set cs)"
  using assms
proof (induction cs arbitrary: s D P tr)
  case Nil
  then show ?case by (simp add: final_def)
next
  case (Cons c cs)
  from Cons.prems(1) obtain e s1 tr1 where st: "step env c s = Some (e, s1)"
    and r: "run env cs s1 = Some tr1" and tr: "tr = (e, s1) # tr1"
    by (rule run_Cons_Some)
  have pub: "c = PublishInitial \<Longrightarrow> \<not> P"
    using Cons.prems(4) by (auto split: if_splits)
  note S = step_once[OF st Cons.prems(2,3) pub]
  have f1: "forest s1" by (rule forest_step[OF st Cons.prems(2)])
  have rest: "if P \<or> c = PublishInitial then PublishInitial \<notin> set cs
              else count_list cs PublishInitial \<le> 1"
    using Cons.prems(4) by (auto split: if_splits simp: count_list_0_iff)
  from Cons.IH[OF r f1 S(1) rest]
  have IH: "distinct (concat (map (drained \<circ> fst) tr1))"
    "drained_all tr1 \<inter> (D \<union> set (drained e)) = {}"
    "once (final s1 tr1) (D \<union> set (drained e) \<union> drained_all tr1)
       ((P \<or> c = PublishInitial) \<or> PublishInitial \<in> set cs)"
    by blast+
  have d: "distinct (drained e)" using step_effect(4)[OF st Cons.prems(2)] .
  have 1: "distinct (concat (map (drained \<circ> fst) tr))"
    using d IH(1,2) by (auto simp: tr set_concat_drained[symmetric])
  have 2: "drained_all tr \<inter> D = {}"
    using S(2) IH(2) by (auto simp: tr)
  have 3: "once (final s tr) (D \<union> drained_all tr) (P \<or> PublishInitial \<in> set (c # cs))"
  proof -
    have "D \<union> set (drained e) \<union> drained_all tr1 = D \<union> drained_all tr"
      by (auto simp: tr)
    moreover have "((P \<or> c = PublishInitial) \<or> PublishInitial \<in> set cs) =
        (P \<or> PublishInitial \<in> set (c # cs))" by auto
    ultimately show ?thesis using IH(3) by (simp add: tr final_Cons)
  qed
  show ?case using 1 2 3 by blast
qed

lemma count_list_take: "count_list (take n xs) x \<le> count_list xs x"
proof (induction xs arbitrary: n)
  case Nil
  then show ?case by simp
next
  case (Cons a xs)
  show ?case using Cons[of "n - 1"] by (cases n) auto
qed

lemma run_once_at:
  assumes "run env cs init = Some tr" and "count_list cs PublishInitial \<le> 1" and "i < length tr"
  shows "set (pending (snd (tr ! i))) \<inter> drained_all (take (Suc i) tr) = {}"
proof -
  have r: "run env (take (Suc i) cs) init = Some (take (Suc i) tr)"
    by (rule run_take[OF assms(1)])
  have c: "if False then PublishInitial \<notin> set (take (Suc i) cs)
           else count_list (take (Suc i) cs) PublishInitial \<le> 1"
    using count_list_take[of "Suc i" cs PublishInitial] assms(2) by simp
  from run_once[OF r forest_init once_init c]
  have "once (final init (take (Suc i) tr)) ({} \<union> drained_all (take (Suc i) tr))
          (False \<or> PublishInitial \<in> set (take (Suc i) cs))"
    by blast
  then show ?thesis
    using onceD(2) by (simp add: final_take_Suc[OF assms(3)])
qed

lemma distinct_concat_filter:
  assumes "distinct (concat (map f xs))" and "\<And>x. x \<in> set xs \<Longrightarrow> \<exists>P. g x = filter P (f x)"
  shows "distinct (concat (map g xs))"
  using assms
proof (induction xs)
  case Nil
  then show ?case by simp
next
  case (Cons x xs)
  from Cons.prems(2)[of x] obtain P where P: "g x = filter P (f x)" by auto
  have sub: "set (concat (map g xs)) \<subseteq> set (concat (map f xs))"
  proof
    fix y assume "y \<in> set (concat (map g xs))"
    then obtain z where z: "z \<in> set xs" "y \<in> set (g z)" by auto
    from Cons.prems(2)[of z] z(1) obtain Q where "g z = filter Q (f z)" by auto
    then have "y \<in> set (f z)" using z(2) by simp
    then show "y \<in> set (concat (map f xs))" using z(1) by auto
  qed
  have "distinct (concat (map g xs))"
    using Cons.IH Cons.prems by simp
  moreover have "distinct (g x)" using Cons.prems(1) P by simp
  moreover have "set (g x) \<inter> set (concat (map g xs)) = {}"
    using Cons.prems(1) sub P by auto
  ultimately show ?case by simp
qed

lemma emitted_filter: "\<exists>P. emitted x = filter P ((drained \<circ> fst) x)"
proof (cases x)
  case (Pair e s)
  show ?thesis
  proof (cases e)
    case (Pulled batch out)
    show ?thesis
    proof (cases out)
      case (Value v)
      then show ?thesis using Pair Pulled by auto
    next
      case Done
      then show ?thesis using Pair Pulled by (auto intro: exI[of _ "\<lambda>_. False"])
    next
      case (Await n)
      then show ?thesis using Pair Pulled by (auto intro: exI[of _ "\<lambda>_. False"])
    qed
  qed (use Pair in auto)
qed

text \<open>The frame that a pass returns holds the entries of the emitted records, in order.\<close>

lemma frame_of_emitted:
  assumes st: "step env c s = Some (Pulled batch (Value v), s')"
  shows "incremental v =
     (if emitted (Pulled batch (Value v), s') = [] then None
      else Some (map (\<lambda>r. entry (heap s' r)) (emitted (Pulled batch (Value v), s'))))"
proof -
  have c: "c = Next"
    using step_SomeD(2)[OF st] by (cases c) (auto split: option.splits prod.splits)
  note N = step_Next[OF st[unfolded c]]
  have nd: "\<not> isDone s" using N(1) by (auto simp: next_pass_done)
  then have b: "batch = released s" and v: "fst (next_pass s) = Value v" using N(1) by auto
  have h: "heap s' = heap s" using N(2) next_pass_fields(1)[OF nd] by simp
  from v show ?thesis
    unfolding next_pass_cases(2)[OF nd]
    by (auto simp: loop_entries h b split: if_splits)
qed

lemma step_children:
  assumes st: "step env c s = Some (e, s')"
    and "\<And>np origin. c \<noteq> Filter np origin"
    and "\<And>opt. c \<noteq> PrepareNewDeferredFragmentRecord opt"
    and "\<And>opt. c \<noteq> PrepareNewStreamItemsRecord opt"
  shows "nextRef s' = nextRef s \<and> initialChildren s' = initialChildren s \<and>
         (\<forall>x. children (heap s' x) = children (heap s x))"
proof -
  note p = step_SomeD(2)[OF st]
  show ?thesis
  proof (cases c)
    case (CompleteDeferredFragmentRecord r d)
    with p have "s' = completeDeferredFragmentRecord r d s" by simp
    then show ?thesis by simp
  next
    case (CompleteStreamItemsRecord r its)
    with p have "s' = completeStreamItemsRecord r its s" by simp
    then show ?thesis by simp
  next
    case (SetIsCompletedAsyncIterator r)
    with p have "s' = setIsCompletedAsyncIterator r s" by simp
    then show ?thesis by simp
  next
    case (AddFieldError r err)
    with p have "s' = addFieldError r err s" by simp
    then show ?thesis by simp
  next
    case PublishInitial
    with p have "s' = publishInitial s" by simp
    then show ?thesis by simp
  next
    case Next
    note N = step_Next[OF st[unfolded Next]]
    show ?thesis
    proof (cases "isDone s")
      case True
      then show ?thesis using N by (simp add: next_pass_done)
    next
      case False
      then show ?thesis using N(2) next_pass_fields(1,2,3)[OF False] by simp
    qed
  next
    case Return
    with p have "s' = snd (subscribe_return env s)" by (simp split: prod.splits)
    then show ?thesis by simp
  next
    case (Throw err)
    with p have "s' = snd (subscribe_throw env err s)" by (simp split: prod.splits)
    then show ?thesis by simp
  qed (use assms in simp_all)
qed

lemma attachedTo_I:
  "r \<in> set (initialChildren s) \<Longrightarrow> r \<in> attachedTo s"
  "p < nextRef s \<Longrightarrow> r \<in> set (children (heap s p)) \<Longrightarrow> r \<in> attachedTo s"
  by (auto simp: attachedTo_def)

lemma attachedTo_E:
  assumes "r \<in> attachedTo s"
  obtains "r \<in> set (initialChildren s)"
  | p where "p < nextRef s" "r \<in> set (children (heap s p))"
  using assms by (auto simp: attachedTo_def)

lemma attachedTo_attach:
  assumes "children new = []"
    and ok: "case o_parentContext opt of None \<Rightarrow> True | Some p \<Rightarrow> p < nextRef s"
  shows "attachedTo s \<subseteq> attachedTo (attach opt new s)"
    and "attachedTo (attach opt new s) \<subseteq> insert (nextRef s) (attachedTo s)"
proof -
  let ?s' = "attach opt new s"
  have neq: "o_parentContext opt \<noteq> Some (nextRef s)"
    using ok by (auto split: option.splits)
  have new: "children (heap ?s' (nextRef s)) = []"
    using attach_new[OF neq, of new] assms(1) by simp
  have old: "children (heap ?s' x) =
          (if o_parentContext opt = Some x then set_add (nextRef s) (children (heap s x))
           else children (heap s x))" if "x < nextRef s" for x
    using attach_old(2)[OF that] .
  show "attachedTo s \<subseteq> attachedTo ?s'"
  proof
    fix r assume "r \<in> attachedTo s"
    then show "r \<in> attachedTo ?s'"
    proof (cases rule: attachedTo_E)
      case 1
      then show ?thesis by (intro attachedTo_I(1)) (simp add: attach_initialChildren)
    next
      case (2 p)
      then have "r \<in> set (children (heap ?s' p))" using old[of p] by simp
      then show ?thesis using 2(1) by (intro attachedTo_I(2)[of p]) simp_all
    qed
  qed
  show "attachedTo ?s' \<subseteq> insert (nextRef s) (attachedTo s)"
  proof
    fix r assume "r \<in> attachedTo ?s'"
    then show "r \<in> insert (nextRef s) (attachedTo s)"
    proof (cases rule: attachedTo_E)
      case 1
      then have "r = nextRef s \<or> r \<in> set (initialChildren s)"
        by (auto simp: attach_initialChildren split: if_splits)
      then show ?thesis using attachedTo_I(1)[of r s] by blast
    next
      case (2 p)
      show ?thesis
      proof (cases "p = nextRef s")
        case True
        then show ?thesis using 2(2) new by simp
      next
        case False
        then have p: "p < nextRef s" using 2(1) by simp
        then have "r = nextRef s \<or> r \<in> set (children (heap s p))"
          using 2(2) old[OF p] by (auto split: if_splits)
        then show ?thesis using attachedTo_I(2)[OF p, of r] by blast
      qed
    qed
  qed
qed

lemma attachedTo_same:
  assumes "nextRef s' = nextRef s" and "initialChildren s' = initialChildren s"
    and "\<forall>x. children (heap s' x) = children (heap s x)"
  shows "attachedTo s' = attachedTo s"
  using assms by (simp add: attachedTo_def)

lemma attachedTo_filter:
  assumes f: "forest s" and ok: "case origin of None \<Rightarrow> True | Some e \<Rightarrow> e < nextRef s"
    and fr: "filter_records env np origin s = Some s'"
  shows "attachedTo s' = attachedTo s - pruned s np origin"
    and "set (pending s') = set (pending s) - pruned s np origin"
    and "nextRef s' = nextRef s"
proof -
  from filter_records_effect[OF f ok, of env np] fr
  have eff: "pending s' = filter (\<lambda>r. r \<notin> pruned s np origin) (pending s)"
      "initialChildren s' = filter (\<lambda>r. r \<notin> pruned s np origin) (initialChildren s)"
      "\<And>p. p < nextRef s \<Longrightarrow> heap s' p =
        (heap s p)\<lparr>children := filter (\<lambda>r. r \<notin> pruned s np origin) (children (heap s p))\<rparr>"
      "nextRef s' = nextRef s"
    by auto
  show "attachedTo s' = attachedTo s - pruned s np origin"
    by (auto simp: attachedTo_def eff)
  show "set (pending s') = set (pending s) - pruned s np origin"
    by (auto simp: eff)
  show "nextRef s' = nextRef s" by (rule eff(4))
qed

lemma step_attached:
  assumes st: "step env c s = Some (e, s')" and f: "forest s"
    and a: "set (pending s) \<subseteq> attachedTo s"
  shows "set (pending s') \<subseteq> attachedTo s'"
    and "\<And>r. r < nextRef s \<Longrightarrow> r \<notin> attachedTo s \<Longrightarrow> r \<notin> attachedTo s'"
proof -
  note ok = step_SomeD(1)[OF st] and p = step_SomeD(2)[OF st]
  note E = step_effect[OF st f]
  have "set (pending s') \<subseteq> attachedTo s' \<and>
        (\<forall>r. r < nextRef s \<longrightarrow> r \<notin> attachedTo s \<longrightarrow> r \<notin> attachedTo s')"
  proof -
    consider (prepD) opt where "c = PrepareNewDeferredFragmentRecord opt"
      | (prepS) opt where "c = PrepareNewStreamItemsRecord opt"
      | (filt) np origin where "c = Filter np origin"
      | (other) "\<And>np origin. c \<noteq> Filter np origin"
          "\<And>opt. c \<noteq> PrepareNewDeferredFragmentRecord opt"
          "\<And>opt. c \<noteq> PrepareNewStreamItemsRecord opt"
      by (cases c) auto
    then show ?thesis
    proof cases
      case prepD
      with p have s': "s' = attach opt (DeferredFragmentRecord opt) s"
        by (simp add: prepare_attach)
      have okp: "case o_parentContext opt of None \<Rightarrow> True | Some p \<Rightarrow> p < nextRef s"
        using ok prepD by simp
      have "children (DeferredFragmentRecord opt) = []"
        by (simp add: DeferredFragmentRecord_def)
      from attachedTo_attach[OF this okp] a show ?thesis
        unfolding s' by auto
    next
      case prepS
      with p have s': "s' = attach opt (StreamItemsRecord opt) s"
        by (simp add: prepare_attach)
      have okp: "case o_parentContext opt of None \<Rightarrow> True | Some p \<Rightarrow> p < nextRef s"
        using ok prepS by simp
      have "children (StreamItemsRecord opt) = []"
        by (simp add: StreamItemsRecord_def)
      from attachedTo_attach[OF this okp] a show ?thesis
        unfolding s' by auto
    next
      case filt
      from p have fr: "filter_records env np origin s = Some s'"
        unfolding filt by (rule perform_Filter(1))
      have ok': "case origin of None \<Rightarrow> True | Some e \<Rightarrow> e < nextRef s"
        using ok filt by simp
      from attachedTo_filter[OF f ok' fr] a show ?thesis by auto
    next
      case other
      from step_children[OF st other]
      have same: "attachedTo s' = attachedTo s"
        by (intro attachedTo_same) simp_all
      have "set (pending s') \<subseteq> attachedTo s"
      proof
        fix r assume "r \<in> set (pending s')"
        with E(5) consider "r \<in> set (pending s)" | "r \<in> set (initialChildren s)"
          | "r \<in> childrenOf (heap s) (drained e)"
          by (auto split: if_splits)
        then show "r \<in> attachedTo s"
        proof cases
          case 1
          then show ?thesis using a by blast
        next
          case 2
          then show ?thesis by (rule attachedTo_I(1))
        next
          case 3
          then obtain q where q: "q \<in> set (drained e)" "r \<in> set (children (heap s q))"
            by (auto simp: childrenOf_def)
          then have "q < nextRef s" using E(3) forestD(3)[OF f] by blast
          then show ?thesis using q(2) by (rule attachedTo_I(2))
        qed
      qed
      then show ?thesis using same by simp
    qed
  qed
  then show "set (pending s') \<subseteq> attachedTo s'"
    and "\<And>r. r < nextRef s \<Longrightarrow> r \<notin> attachedTo s \<Longrightarrow> r \<notin> attachedTo s'"
    by blast+
qed

lemma run_detached:
  assumes "run env cs s = Some tr" and "forest s" and "set (pending s) \<subseteq> attachedTo s"
    and "r < nextRef s" and "r \<notin> attachedTo s"
  shows "\<forall>x \<in> set tr. r \<notin> set (pending (snd x)) \<and> r \<notin> set (drained (fst x))"
  using assms
proof (induction cs arbitrary: s tr)
  case Nil
  then show ?case by simp
next
  case (Cons c cs)
  from Cons.prems(1) obtain e s1 tr1 where st: "step env c s = Some (e, s1)"
    and r: "run env cs s1 = Some tr1" and tr: "tr = (e, s1) # tr1"
    by (rule run_Cons_Some)
  note A = step_attached[OF st Cons.prems(2,3)]
  note E = step_effect[OF st Cons.prems(2)]
  have f1: "forest s1" by (rule forest_step[OF st Cons.prems(2)])
  have r1: "r < nextRef s1" using Cons.prems(4) E(1) by simp
  have na: "r \<notin> attachedTo s1" using A(2)[OF Cons.prems(4,5)] .
  have here: "r \<notin> set (pending s1) \<and> r \<notin> set (drained e)"
    using na A(1) E(3) Cons.prems(3,5) by blast
  from Cons.IH[OF r f1 A(1) r1 na] here show ?case
    by (simp add: tr)
qed

lemma attached_run:
  assumes "run env cs s = Some tr" and "forest s" and "set (pending s) \<subseteq> attachedTo s"
  shows "set (pending (final s tr)) \<subseteq> attachedTo (final s tr)"
  using assms
proof (induction cs arbitrary: s tr)
  case Nil
  then show ?case by (simp add: final_def)
next
  case (Cons c cs)
  from Cons.prems(1) obtain e s1 tr1 where st: "step env c s = Some (e, s1)"
    and r: "run env cs s1 = Some tr1" and tr: "tr = (e, s1) # tr1"
    by (rule run_Cons_Some)
  from Cons.IH[OF r forest_step[OF st Cons.prems(2)] step_attached(1)[OF st Cons.prems(2,3)]]
  show ?case by (simp add: tr final_Cons)
qed

lemma pruned_allocated:
  assumes f: "forest s" and ok: "case origin of None \<Rightarrow> True | Some e \<Rightarrow> e < nextRef s"
    and "r \<in> pruned s np origin"
  shows "r < nextRef s"
proof -
  have "r \<in> descendants (heap s) (origin_children s origin)"
    using assms(3) by (simp add: pruned_def)
  moreover have "\<forall>c \<in> set (origin_children s origin). c < nextRef s"
    using origin_children_ok[OF f ok] by blast
  ultimately show ?thesis using descendants_allocated[OF f] by blast
qed

lemma attachedTo_init: "set (pending init) \<subseteq> attachedTo init"
  by (simp add: init_def)

lemma filter_removed_stays_out:
  assumes run: "run env cs init = Some tr" and i: "i < length tr"
    and c: "cs ! i = Filter np origin"
    and r: "r \<in> pruned (final init (take i tr)) np origin"
    and j: "i \<le> j" "j < length tr"
  shows "r \<notin> set (pending (snd (tr ! j))) \<and> r \<notin> set (drained (fst (tr ! j)))"
proof -
  let ?sb = "final init (take i tr)"
  have len: "length tr = length cs" by (rule run_length[OF run])
  have pre: "run env (take i cs) init = Some (take i tr)" by (rule run_take[OF run])
  have f: "forest ?sb" using forest_run[OF pre forest_init] by blast
  have a: "set (pending ?sb) \<subseteq> attachedTo ?sb"
    by (rule attached_run[OF pre forest_init attachedTo_init])
  have "run env (drop i cs) ?sb = Some (drop i tr)" by (rule run_drop[OF run])
  moreover have "drop i cs = Filter np origin # drop (Suc i) cs"
    using i len c by (simp add: Cons_nth_drop_Suc[symmetric])
  ultimately have "run env (Filter np origin # drop (Suc i) cs) ?sb = Some (drop i tr)" by simp
  then obtain e s1 tr1 where st: "step env (Filter np origin) ?sb = Some (e, s1)"
    and rest: "run env (drop (Suc i) cs) s1 = Some tr1" and d: "drop i tr = (e, s1) # tr1"
    by (rule run_Cons_Some)
  have ok: "case origin of None \<Rightarrow> True | Some e \<Rightarrow> e < nextRef ?sb"
    using step_SomeD(1)[OF st] by simp
  have fr: "filter_records env np origin ?sb = Some s1" and e: "drained e = []"
    using step_SomeD(2)[OF st] by (rule perform_Filter(1), rule perform_Filter(2))
  note A = attachedTo_filter[OF f ok fr]
  have r1: "r < nextRef s1" using pruned_allocated[OF f ok r] A(3) by simp
  have na: "r \<notin> attachedTo s1" using A(1) r by blast
  have np: "r \<notin> set (pending s1)" using A(2) r by blast
  have f1: "forest s1" by (rule forest_step[OF st f])
  have a1: "set (pending s1) \<subseteq> attachedTo s1" by (rule step_attached(1)[OF st f a])
  from run_detached[OF rest f1 a1 r1 na] np e
  have all: "\<forall>x \<in> set (drop i tr). r \<notin> set (pending (snd x)) \<and> r \<notin> set (drained (fst x))"
    by (simp add: d)
  have "tr ! j = drop i tr ! (j - i)" using j by simp
  moreover have "j - i < length (drop i tr)" using j by simp
  ultimately have "tr ! j \<in> set (drop i tr)" by (metis nth_mem)
  then show ?thesis using all by blast
qed

lemma run_step_at:
  assumes "run env cs s = Some tr" and i: "i < length tr"
  shows "step env (cs ! i) (final s (take i tr)) = Some (tr ! i)"
proof -
  have len: "length tr = length cs" by (rule run_length[OF assms(1)])
  have "run env (drop i cs) (final s (take i tr)) = Some (drop i tr)"
    by (rule run_drop[OF assms(1)])
  moreover have "drop i cs = cs ! i # drop (Suc i) cs"
    using i len by (simp add: Cons_nth_drop_Suc)
  ultimately have "run env (cs ! i # drop (Suc i) cs) (final s (take i tr)) = Some (drop i tr)"
    by simp
  then obtain e s1 tr1 where st: "step env (cs ! i) (final s (take i tr)) = Some (e, s1)"
    and d: "drop i tr = (e, s1) # tr1"
    by (rule run_Cons_Some)
  have "drop i tr = tr ! i # drop (Suc i) tr"
    using i by (simp add: Cons_nth_drop_Suc)
  then have "tr ! i = (e, s1)" using d by simp
  then show ?thesis using st by simp
qed

lemma release_absent:
  assumes "r \<notin> set (pending s)"
  shows "released (completeDeferredFragmentRecord r d s) = released s"
    and "pending (completeDeferredFragmentRecord r d s) = pending s"
    and "signalled (completeDeferredFragmentRecord r d s) = signalled s"
    and "released (completeStreamItemsRecord r its s) = released s"
    and "pending (completeStreamItemsRecord r its s) = pending s"
    and "signalled (completeStreamItemsRecord r its s) = signalled s"
  using assms
  by (simp_all add: completeDeferredFragmentRecord_def completeStreamItemsRecord_def release_def)

lemma pass_emits:
  assumes st: "step env c s = Some (Pulled batch out, s')"
    and p: "p \<in> set batch" and ne: "\<not> exhausted (heap s' p)"
  shows "p \<in> set (emitted (Pulled batch out, s'))"
proof -
  have c: "c = Next"
    using step_SomeD(2)[OF st] by (cases c) (auto split: option.splits prod.splits)
  note N = step_Next[OF st[unfolded c]]
  have nd: "\<not> isDone s" using N(1) p by (auto split: if_splits)
  then have b: "batch = released s" and out: "out = fst (next_pass s)" using N(1) by auto
  have h: "heap s' = heap s" using N(2) next_pass_fields(1)[OF nd] by simp
  have live: "p \<in> set (filter (\<lambda>r. \<not> exhausted (heap s r)) (released s))"
    using p ne b h by simp
  then have "filter (\<lambda>r. \<not> exhausted (heap s r)) (released s) \<noteq> []"
    by (metis empty_iff empty_set)
  then obtain v where "out = Value v"
    unfolding out next_pass_cases(2)[OF nd] by (simp add: loop_entries)
  then show ?thesis using live b h by simp
qed

lemma emitted_subset: "set (emitted (e, s)) \<subseteq> set (drained e)"
  using emitted_filter[of "(e, s)"] by auto

lemma drained_emits_at:
  assumes run: "run env cs init = Some tr" and j: "j < length tr"
    and p: "p \<in> set (drained (fst (tr ! j)))"
  shows "exhausted (heap (snd (tr ! j)) p) \<or> p \<in> set (emitted (tr ! j))"
proof -
  obtain e s' where x: "tr ! j = (e, s')" by (cases "tr ! j")
  from p x obtain batch out where e: "e = Pulled batch out" and pb: "p \<in> set batch"
    by (cases e) auto
  have "step env (cs ! j) (final init (take j tr)) = Some (Pulled batch out, s')"
    using run_step_at[OF run j] x e by simp
  from pass_emits[OF this pb] show ?thesis by (auto simp: x e)
qed

text \<open>
  C2, as amended.  In every session, whatever the order of the completion calls: a record
  with a parent is in \<^verbatim>\<open>_pending\<close> or \<^verbatim>\<open>_released\<close> after a call only if a pass of \<^verbatim>\<open>_next\<close> has drained
  its parent by then, and the batch of a pass holds it only if a strictly earlier pass has
  drained its parent.  That earlier pass emitted the parent's entry, unless the parent is an
  exhausted stream record, which has no entry.  The frame of a pass is made of the records
  of its batch, so the consumer sees a record's entry only in a pass after the one that
  drained its parent, which is the pass that emitted the parent's entry if the parent has
  one.
\<close>

theorem child_pending_only_after_parent_drained:
  assumes "run env cs init = Some tr" and "i < length tr"
    and "parentContext (heap (snd (tr ! i)) r) = Some p"
  shows "(r \<in> set (pending (snd (tr ! i))) \<union> set (released (snd (tr ! i))) \<longrightarrow>
            (\<exists>j \<le> i. p \<in> set (drained (fst (tr ! j))))) \<and>
         (r \<in> set (drained (fst (tr ! i))) \<longrightarrow>
            (\<exists>j < i. p \<in> set (drained (fst (tr ! j))) \<and>
               (exhausted (heap (snd (tr ! j)) p) \<or> p \<in> set (emitted (tr ! j)))))"
proof (intro conjI impI)
  note R = run_ordered[OF assms(1) forest_init ordered_init assms(2)]
  have f: "forest (snd (tr ! i))"
    using forest_run[OF assms(1) forest_init] assms(2) nth_mem[OF assms(2)]
    by (metis (no_types, lifting) case_prodD prod.collapse)
  {
    assume "r \<in> set (pending (snd (tr ! i))) \<union> set (released (snd (tr ! i)))"
    then have "r \<in> set (pending (snd (tr ! i)))" using forestD(4)[OF f] by blast
    then have "p \<in> drained_all (take (Suc i) tr)"
      using R(1) assms(3) unfolding ordered_def by blast
    then obtain j where "j < Suc i" "p \<in> set (drained (fst (tr ! j)))"
      unfolding in_drained_all_take by blast
    then show "\<exists>j \<le> i. p \<in> set (drained (fst (tr ! j)))"
      using less_Suc_eq_le by blast
  }
  {
    assume "r \<in> set (drained (fst (tr ! i)))"
    then have "p \<in> drained_all (take i tr)"
      using R(2) assms(3) by blast
    then obtain j where j: "j < i" "p \<in> set (drained (fst (tr ! j)))"
      unfolding in_drained_all_take by blast
    then have "j < length tr" using assms(2) by simp
    from drained_emits_at[OF assms(1) this j(2)] j
    show "\<exists>j < i. p \<in> set (drained (fst (tr ! j))) \<and>
               (exhausted (heap (snd (tr ! j)) p) \<or> p \<in> set (emitted (tr ! j)))"
      by blast
  }
qed

text \<open>
  C9.  In every session in which \<^verbatim>\<open>publishInitial\<close> is called at most once (the spec has
  the executor call it exactly once), duplicate completion calls included: no record is in
  two batches or twice in one, so no record contributes to two frames; the frame of a pass
  holds the entries of the records it emitted.  A record that has been drained is absent
  from \<^verbatim>\<open>_pending\<close> ever after, and so is a record that \<^verbatim>\<open>filter\<close> removed, which is in no
  later batch either; a completion call for such a record leaves \<^verbatim>\<open>_released\<close> as it is.
\<close>

theorem record_emitted_at_most_once:
  assumes "run env cs init = Some tr" and "count_list cs PublishInitial \<le> 1"
  shows "distinct (concat (map (drained \<circ> fst) tr)) \<and>
     distinct (concat (map emitted tr)) \<and>
     (\<forall>i < length tr. \<forall>batch v. fst (tr ! i) = Pulled batch (Value v) \<longrightarrow>
        incremental v =
          (if emitted (tr ! i) = [] then None
           else Some (map (\<lambda>r. entry (heap (snd (tr ! i)) r)) (emitted (tr ! i))))) \<and>
     (\<forall>i < length tr. \<forall>j \<le> i. \<forall>r \<in> set (drained (fst (tr ! j))).
        r \<notin> set (pending (snd (tr ! i))) \<and>
        (\<forall>d. released (completeDeferredFragmentRecord r d (snd (tr ! i))) = released (snd (tr ! i))) \<and>
        (\<forall>its. released (completeStreamItemsRecord r its (snd (tr ! i))) = released (snd (tr ! i)))) \<and>
     (\<forall>i < length tr. \<forall>nullPathArray origin. cs ! i = Filter nullPathArray origin \<longrightarrow>
        (\<forall>r \<in> pruned (final init (take i tr)) nullPathArray origin.
           \<forall>j. i \<le> j \<and> j < length tr \<longrightarrow>
             r \<notin> set (pending (snd (tr ! j))) \<and> r \<notin> set (drained (fst (tr ! j))) \<and>
             (\<forall>d. released (completeDeferredFragmentRecord r d (snd (tr ! j))) = released (snd (tr ! j))) \<and>
             (\<forall>its. released (completeStreamItemsRecord r its (snd (tr ! j))) = released (snd (tr ! j)))))"
proof (intro conjI allI impI ballI)
  have c: "if False then PublishInitial \<notin> set cs else count_list cs PublishInitial \<le> 1"
    using assms(2) by simp
  show d: "distinct (concat (map (drained \<circ> fst) tr))"
    using run_once[OF assms(1) forest_init once_init c] by blast
  show "distinct (concat (map emitted tr))"
    using d emitted_filter by (rule distinct_concat_filter)
next
  fix i batch v assume i: "i < length tr" and e: "fst (tr ! i) = Pulled batch (Value v)"
  have "step env (cs ! i) (final init (take i tr)) = Some (tr ! i)"
    by (rule run_step_at[OF assms(1) i])
  then have "step env (cs ! i) (final init (take i tr)) = Some (Pulled batch (Value v), snd (tr ! i))"
    using e by (metis prod.collapse)
  from frame_of_emitted[OF this] e
  show "incremental v =
          (if emitted (tr ! i) = [] then None
           else Some (map (\<lambda>r. entry (heap (snd (tr ! i)) r)) (emitted (tr ! i))))"
    by (metis prod.collapse)
next
  fix i j r assume i: "i < length tr" and j: "j \<le> i" and r: "r \<in> set (drained (fst (tr ! j)))"
  have "r \<in> drained_all (take (Suc i) tr)"
    unfolding in_drained_all_take using i j r by (meson le_imp_less_Suc le_less_trans)
  then show np: "r \<notin> set (pending (snd (tr ! i)))"
    using run_once_at[OF assms i] by blast
  fix d show "released (completeDeferredFragmentRecord r d (snd (tr ! i))) = released (snd (tr ! i))"
    by (rule release_absent(1)[OF np])
next
  fix i j r its assume i: "i < length tr" and j: "j \<le> i" and r: "r \<in> set (drained (fst (tr ! j)))"
  have "r \<in> drained_all (take (Suc i) tr)"
    unfolding in_drained_all_take using i j r by (meson le_imp_less_Suc le_less_trans)
  then have np: "r \<notin> set (pending (snd (tr ! i)))"
    using run_once_at[OF assms i] by blast
  show "released (completeStreamItemsRecord r its (snd (tr ! i))) = released (snd (tr ! i))"
    by (rule release_absent(4)[OF np])
next
  fix i nullPathArray origin r j
  assume A: "i < length tr" "cs ! i = Filter nullPathArray origin"
    "r \<in> pruned (final init (take i tr)) nullPathArray origin" "i \<le> j \<and> j < length tr"
  note R = filter_removed_stays_out[OF assms(1) A(1,2,3)]
  show "r \<notin> set (pending (snd (tr ! j)))" using R[of j] A(4) by blast
  show "r \<notin> set (drained (fst (tr ! j)))" using R[of j] A(4) by blast
  have np: "r \<notin> set (pending (snd (tr ! j)))" using R[of j] A(4) by blast
  fix d show "released (completeDeferredFragmentRecord r d (snd (tr ! j))) = released (snd (tr ! j))"
    by (rule release_absent(1)[OF np])
next
  fix i nullPathArray origin r j its
  assume A: "i < length tr" "cs ! i = Filter nullPathArray origin"
    "r \<in> pruned (final init (take i tr)) nullPathArray origin" "i \<le> j \<and> j < length tr"
  note R = filter_removed_stays_out[OF assms(1) A(1,2,3)]
  have np: "r \<notin> set (pending (snd (tr ! j)))" using R[of j] A(4) by blast
  show "released (completeStreamItemsRecord r its (snd (tr ! j))) = released (snd (tr ! j))"
    by (rule release_absent(4)[OF np])
qed

lemma once_final:
  assumes "run env cs init = Some tr" and "count_list cs PublishInitial \<le> 1"
  shows "once (final init tr) (drained_all tr) (PublishInitial \<in> set cs)"
proof -
  have c: "if False then PublishInitial \<notin> set cs else count_list cs PublishInitial \<le> 1"
    using assms(2) by simp
  from run_once[OF assms(1) forest_init once_init c] show ?thesis by simp
qed

lemma no_empty_frame:
  assumes "fst (next_pass s) = Value v"
  shows "incremental v \<noteq> Some []"
    and "incremental v = None \<Longrightarrow> \<not> res_hasNext v \<and> \<not> hasNext (snd (next_pass s))"
proof -
  have nd: "\<not> isDone s" using assms by (auto simp: next_pass_done)
  from assms show "incremental v \<noteq> Some []"
    unfolding next_pass_cases(2)[OF nd] by (auto split: if_splits)
  assume "incremental v = None"
  with assms show "\<not> res_hasNext v \<and> \<not> hasNext (snd (next_pass s))"
    unfolding next_pass_cases[OF nd] by (auto split: if_splits simp: hasNext_def)
qed

text \<open>
  C7.  In every state reached by a session with at most one \<^verbatim>\<open>publishInitial\<close>, a pass of
  \<^verbatim>\<open>_next\<close> followed at once by a second pass: the second batch shares no record with the
  first, it holds only children of the first batch that had completed, and so no frame of
  the second pass repeats a record of the first.  And in any state at all, a frame that a
  pass returns never has an empty \<^verbatim>\<open>incremental\<close> list; the bare \<^verbatim>\<open>{hasNext: false}\<close> is
  returned only when \<^verbatim>\<open>hasNext()\<close> is false.
\<close>

theorem second_drain_repeats_nothing:
  assumes "run env cs init = Some tr" and "count_list cs PublishInitial \<le> 1"
    and "s = final init tr"
  shows "set (batch_of s) \<inter> set (batch_of (snd (next_pass s))) = {} \<and>
     set (batch_of (snd (next_pass s))) \<subseteq>
       {c \<in> childrenOf (heap s) (batch_of s). isCompleted (heap s c)} \<and>
     (\<forall>out s2. set (emitted (Pulled (batch_of (snd (next_pass s))) out, s2)) \<inter>
                 set (batch_of s) = {}) \<and>
     (\<forall>s0 v. fst (next_pass s0) = Value v \<longrightarrow>
        incremental v \<noteq> Some [] \<and>
        (incremental v = None \<longrightarrow> \<not> res_hasNext v \<and> \<not> hasNext (snd (next_pass s0))))"
proof (intro conjI allI impI)
  have f: "forest s" using forest_run[OF assms(1) forest_init] assms(3) by blast
  have o: "once s (drained_all tr) (PublishInitial \<in> set cs)"
    using once_final[OF assms(1,2)] assms(3) by simp
  have st: "step env Next s = Some (Pulled (batch_of s) (fst (next_pass s)), snd (next_pass s))"
    by (simp add: step_def batch_of_def split: prod.splits)
  have f1: "forest (snd (next_pass s))" by (rule forest_step[OF st f])
  from step_once(1)[OF st f o]
  have "once (snd (next_pass s)) (drained_all tr \<union> set (batch_of s))
          (PublishInitial \<in> set cs \<or> Next = PublishInitial)"
    by simp
  then have "set (pending (snd (next_pass s))) \<inter> (drained_all tr \<union> set (batch_of s)) = {}"
    by (rule onceD(2))
  moreover have "set (batch_of (snd (next_pass s))) \<subseteq> set (pending (snd (next_pass s)))"
    using forestD(4)[OF f1] by (auto simp: batch_of_def)
  ultimately show dis: "set (batch_of s) \<inter> set (batch_of (snd (next_pass s))) = {}"
    by blast
  fix out s2
  show "set (emitted (Pulled (batch_of (snd (next_pass s))) out, s2)) \<inter> set (batch_of s) = {}"
    using dis emitted_subset[of "Pulled (batch_of (snd (next_pass s))) out" s2] by auto
  show "set (batch_of (snd (next_pass s))) \<subseteq>
       {c \<in> childrenOf (heap s) (batch_of s). isCompleted (heap s c)}"
  proof (cases "isDone s")
    case True
    then show ?thesis by (simp add: batch_of_def next_pass_done)
  next
    case False
    then show ?thesis using next_pass_fields(6)[OF False] by (auto simp: batch_of_def)
  qed
next
  fix s0 v assume "fst (next_pass s0) = Value v"
  then show "incremental v \<noteq> Some []" by (rule no_empty_frame(1))
next
  fix s0 v assume "fst (next_pass s0) = Value v" "incremental v = None"
  then show "\<not> res_hasNext v" using no_empty_frame(2) by blast
next
  fix s0 v assume "fst (next_pass s0) = Value v" "incremental v = None"
  then show "\<not> hasNext (snd (next_pass s0))" using no_empty_frame(2) by blast
qed

lemma empty_stays:
  assumes st: "step env c s = Some (e, s')" and f: "forest s"
    and "pending s = []" and "c \<noteq> PublishInitial"
  shows "pending s' = []"
proof -
  note E = step_effect[OF st f]
  have "drained e = []" using E(3) assms(3) by simp
  then have "set (pending s') \<subseteq> {}"
    using E(5) assms(3,4) by (simp add: childrenOf_def)
  then show ?thesis by simp
qed

lemma run_empty:
  assumes "run env cs s = Some tr" and "forest s" and "pending s = []"
    and "PublishInitial \<notin> set cs"
  shows "falls (hasNext s # map (\<lambda>x. hasNext (snd x)) tr) = 0"
  using assms
proof (induction cs arbitrary: s tr)
  case Nil
  then show ?case by simp
next
  case (Cons c cs)
  from Cons.prems(1) obtain e s1 tr1 where st: "step env c s = Some (e, s1)"
    and r: "run env cs s1 = Some tr1" and tr: "tr = (e, s1) # tr1"
    by (rule run_Cons_Some)
  have e1: "pending s1 = []"
    using empty_stays[OF st Cons.prems(2,3)] Cons.prems(4) by auto
  from Cons.IH[OF r forest_step[OF st Cons.prems(2)] e1] Cons.prems(3,4)
  show ?case by (simp add: tr hasNext_def)
qed

lemma run_published:
  assumes "run env cs s = Some tr" and "forest s" and "PublishInitial \<notin> set cs"
  shows "falls (hasNext s # map (\<lambda>x. hasNext (snd x)) tr) \<le> 1"
  using assms
proof (induction cs arbitrary: s tr)
  case Nil
  then show ?case by simp
next
  case (Cons c cs)
  from Cons.prems(1) obtain e s1 tr1 where st: "step env c s = Some (e, s1)"
    and r: "run env cs s1 = Some tr1" and tr: "tr = (e, s1) # tr1"
    by (rule run_Cons_Some)
  have f1: "forest s1" by (rule forest_step[OF st Cons.prems(2)])
  have no: "PublishInitial \<notin> set cs" using Cons.prems(3) by simp
  show ?case
  proof (cases "hasNext s1")
    case True
    then show ?thesis using Cons.IH[OF r f1 no] by (simp add: tr)
  next
    case False
    then have "pending s1 = []" by (simp add: hasNext_def)
    from run_empty[OF r f1 this no] show ?thesis by (simp add: tr)
  qed
qed

lemma run_unpublished:
  assumes "run env cs s = Some tr" and "forest s" and "pending s = []"
    and "count_list cs PublishInitial \<le> 1"
  shows "falls (hasNext s # map (\<lambda>x. hasNext (snd x)) tr) \<le> 1"
  using assms
proof (induction cs arbitrary: s tr)
  case Nil
  then show ?case by simp
next
  case (Cons c cs)
  from Cons.prems(1) obtain e s1 tr1 where st: "step env c s = Some (e, s1)"
    and r: "run env cs s1 = Some tr1" and tr: "tr = (e, s1) # tr1"
    by (rule run_Cons_Some)
  have f1: "forest s1" by (rule forest_step[OF st Cons.prems(2)])
  have h: "\<not> hasNext s" using Cons.prems(3) by (simp add: hasNext_def)
  show ?case
  proof (cases "c = PublishInitial")
    case True
    then have "PublishInitial \<notin> set cs"
      using Cons.prems(4) by (simp add: count_list_0_iff)
    from run_published[OF r f1 this] h show ?thesis by (simp add: tr)
  next
    case False
    then have "count_list cs PublishInitial \<le> 1" using Cons.prems(4) by simp
    from Cons.IH[OF r f1 empty_stays[OF st Cons.prems(2,3) False] this] h
    show ?thesis by (simp add: tr)
  qed
qed

lemma done_sticky:
  assumes st: "step env c s = Some (e, s')" and "isDone s"
  shows "isDone s'" and "\<And>batch v. e \<noteq> Pulled batch (Value v)"
proof -
  note p = step_SomeD(2)[OF st]
  have "isDone s' \<and> (\<forall>batch v. e \<noteq> Pulled batch (Value v))"
  proof (cases c)
    case (PrepareNewDeferredFragmentRecord opt)
    with p have "s' = attach opt (DeferredFragmentRecord opt) s" "e = Created (nextRef s)"
      by (simp_all add: prepare_attach)
    then show ?thesis using assms(2) by simp
  next
    case (PrepareNewStreamItemsRecord opt)
    with p have "s' = attach opt (StreamItemsRecord opt) s" "e = Created (nextRef s)"
      by (simp_all add: prepare_attach)
    then show ?thesis using assms(2) by simp
  next
    case (CompleteDeferredFragmentRecord r d)
    with p have "s' = completeDeferredFragmentRecord r d s" "e = Quiet" by simp_all
    then show ?thesis using assms(2) by simp
  next
    case (CompleteStreamItemsRecord r its)
    with p have "s' = completeStreamItemsRecord r its s" "e = Quiet" by simp_all
    then show ?thesis using assms(2) by simp
  next
    case (SetIsCompletedAsyncIterator r)
    with p have "s' = setIsCompletedAsyncIterator r s" "e = Quiet" by simp_all
    then show ?thesis using assms(2) by simp
  next
    case (AddFieldError r err)
    with p have "s' = addFieldError r err s" "e = Quiet" by simp_all
    then show ?thesis using assms(2) by simp
  next
    case PublishInitial
    with p have "s' = publishInitial s" "e = Quiet" by simp_all
    then show ?thesis using assms(2) by simp
  next
    case (Filter np origin)
    from p have fr: "filter_records env np origin s = Some s'"
      and e: "\<forall>batch out. e \<noteq> Pulled batch out"
      unfolding Filter by (rule perform_Filter(1), rule perform_Filter(3))
    have "isDone s' = isDone s"
    proof (cases "getDescendants (nextRef s) (heap s) (origin_children s origin) []")
      case None
      from filter_records_None[OF None, of env np] fr show ?thesis by simp
    next
      case (Some ds)
      from filter_records_unfold[OF Some, of env np] fr
      have "s' = snd (return_each env (snd (filter_loop np ds s [])) (fst (filter_loop np ds s [])))"
        by simp
      then show ?thesis by (simp add: filter_loop_fields)
    qed
    then show ?thesis using assms(2) e by simp
  next
    case Next
    note N = step_Next[OF st[unfolded Next]]
    show ?thesis using N assms(2) by (simp add: next_pass_done)
  next
    case Return
    with p have "s' = snd (subscribe_return env s)" "e = Settled (fst (subscribe_return env s))"
      by (simp_all split: prod.splits)
    then show ?thesis by simp
  next
    case (Throw err)
    with p have "s' = snd (subscribe_throw env err s)"
      "e = Settled (fst (subscribe_throw env err s))"
      by (simp_all split: prod.splits)
    then show ?thesis by simp
  qed
  then show "isDone s'" and "\<And>batch v. e \<noteq> Pulled batch (Value v)" by blast+
qed

lemma run_done:
  assumes "run env cs s = Some tr" and "isDone s"
  shows "\<forall>x \<in> set tr. \<forall>batch v. fst x \<noteq> Pulled batch (Value v)"
  using assms
proof (induction cs arbitrary: s tr)
  case Nil
  then show ?case by simp
next
  case (Cons c cs)
  from Cons.prems(1) obtain e s1 tr1 where st: "step env c s = Some (e, s1)"
    and r: "run env cs s1 = Some tr1" and tr: "tr = (e, s1) # tr1"
    by (rule run_Cons_Some)
  note S = done_sticky[OF st Cons.prems(2)]
  from Cons.IH[OF r S(1)] S(2) show ?case by (simp add: tr)
qed

lemma last_frame_done:
  assumes st: "step env c s = Some (Pulled batch (Value v), s')" and "\<not> res_hasNext v"
  shows "isDone s'"
proof -
  have c: "c = Next"
    using step_SomeD(2)[OF st] by (cases c) (auto split: option.splits prod.splits)
  note N = step_Next[OF st[unfolded c]]
  have nd: "\<not> isDone s" using N(1) by (auto simp: next_pass_done)
  have v: "fst (next_pass s) = Value v" using N(1) by simp
  from v assms(2) show ?thesis
    unfolding N(2) next_pass_cases[OF nd] by (auto split: if_splits)
qed

lemma no_frame_after_last:
  assumes run: "run env cs init = Some tr"
    and A: "i < j" "j < length tr" "fst (tr ! i) = Pulled batch (Value v)" "\<not> res_hasNext v"
  shows "pending (snd (tr ! i)) = []" and "fst (tr ! j) \<noteq> Pulled batch' (Value v')"
proof -
  have i: "i < length tr" using A by simp
  have "step env (cs ! i) (final init (take i tr)) = Some (tr ! i)"
    by (rule run_step_at[OF run i])
  then have st: "step env (cs ! i) (final init (take i tr)) =
      Some (Pulled batch (Value v), snd (tr ! i))"
    using A(3) by (metis prod.collapse)
  have d: "isDone (snd (tr ! i))" using last_frame_done[OF st] A by simp
  have c: "cs ! i = Next"
    using step_SomeD(2)[OF st] by (cases "cs ! i") (auto split: option.splits prod.splits)
  note N = step_Next[OF st[unfolded c]]
  have nd: "\<not> isDone (final init (take i tr))" using N(1) by (auto simp: next_pass_done)
  have v: "fst (next_pass (final init (take i tr))) = Value v" using N(1) by simp
  from v A(4) show "pending (snd (tr ! i)) = []"
    unfolding N(2) next_pass_cases[OF nd] by (auto split: if_splits simp: hasNext_def)
  have "run env (drop (Suc i) cs) (final init (take (Suc i) tr)) = Some (drop (Suc i) tr)"
    by (rule run_drop[OF run])
  then have "run env (drop (Suc i) cs) (snd (tr ! i)) = Some (drop (Suc i) tr)"
    by (simp add: final_take_Suc[OF i])
  from run_done[OF this d]
  have all: "\<forall>x \<in> set (drop (Suc i) tr). \<forall>batch v. fst x \<noteq> Pulled batch (Value v)" .
  have "tr ! j = drop (Suc i) tr ! (j - Suc i)" using A by simp
  moreover have "j - Suc i < length (drop (Suc i) tr)" using A by auto
  ultimately have "tr ! j \<in> set (drop (Suc i) tr)" by (metis nth_mem)
  then show "fst (tr ! j) \<noteq> Pulled batch' (Value v')" using all by blast
qed

text \<open>
  C4.  \<^verbatim>\<open>hasNext()\<close> is true exactly when \<^verbatim>\<open>_pending\<close> is non-empty.  In every session with
  at most one \<^verbatim>\<open>publishInitial\<close>, the values of \<^verbatim>\<open>hasNext()\<close> after the calls, starting from
  the fresh publisher, go from true to false at most once.  And once a pass has returned a
  frame with \<^verbatim>\<open>hasNext\<close> false, \<^verbatim>\<open>_pending\<close> is empty and no later pass returns a frame.
\<close>

theorem hasNext_falls_at_most_once:
  assumes "run env cs init = Some tr" and "count_list cs PublishInitial \<le> 1"
  shows "(\<forall>s. hasNext s \<longleftrightarrow> pending s \<noteq> []) \<and>
     falls (hasNext init # map (\<lambda>x. hasNext (snd x)) tr) \<le> 1 \<and>
     (\<forall>i j batch v. i < j \<and> j < length tr \<and> fst (tr ! i) = Pulled batch (Value v) \<and>
          \<not> res_hasNext v \<longrightarrow>
        pending (snd (tr ! i)) = [] \<and> (\<forall>batch' v'. fst (tr ! j) \<noteq> Pulled batch' (Value v')))"
proof -
  have 1: "\<forall>s. hasNext s \<longleftrightarrow> pending s \<noteq> []" by (simp add: hasNext_def)
  have "pending init = []" by (simp add: init_def)
  from run_unpublished[OF assms(1) forest_init this assms(2)]
  have 2: "falls (hasNext init # map (\<lambda>x. hasNext (snd x)) tr) \<le> 1" .
  have 3: "\<forall>i j batch v. i < j \<and> j < length tr \<and> fst (tr ! i) = Pulled batch (Value v) \<and>
          \<not> res_hasNext v \<longrightarrow>
        pending (snd (tr ! i)) = [] \<and> (\<forall>batch' v'. fst (tr ! j) \<noteq> Pulled batch' (Value v'))"
    using no_frame_after_last[OF assms(1)] by blast
  show ?thesis using 1 2 3 by blast
qed

text \<open>The session of A and B, evaluated.\<close>

lemmas session_defs =
  whole_session_def child_first_session_def optsA_def optsB_def trace_of_def

lemma whole_session_run:
  "run resolving whole_session init = Some (trace_of resolving whole_session)"
  by (simp add: session_defs resolving_def call_defs)

lemma whole_session_events:
  "map fst (trace_of resolving whole_session) =
     [Created 0, Created 1, Quiet, Quiet, Pulled [] (Await 0), Quiet,
      Pulled [0] (Value \<lparr>incremental = Some [\<lparr>res_payload = Data JNull, res_path = [Key ''a''],
                                            res_label = None, res_errors = None\<rparr>],
                        res_hasNext = True\<rparr>),
      Quiet, Quiet,
      Pulled [1] (Value \<lparr>incremental = Some [\<lparr>res_payload = Items (Some [JNum 1]),
                                            res_path = [Key ''a'', Key ''items''],
                                            res_label = Some ''b'', res_errors = None\<rparr>],
                        res_hasNext = False\<rparr>),
      Pulled [] Done]"
  by (simp add: session_defs resolving_def call_defs)

lemma whole_session_hasNext:
  "map (\<lambda>x. hasNext (snd x)) (trace_of resolving whole_session) =
     [False, False, True, True, True, True, True, True, True, False, False]"
  by (simp add: session_defs resolving_def call_defs)

lemma child_first_session_run:
  "run resolving child_first_session init = Some (trace_of resolving child_first_session)"
  by (simp add: session_defs resolving_def call_defs)

lemma whole_session_count: "count_list whole_session PublishInitial \<le> 1"
  by (simp add: session_defs)

lemma child_first_session_count: "count_list child_first_session PublishInitial \<le> 1"
  by (simp add: session_defs)

theorem child_pending_only_after_parent_drained_witness:
  "run resolving whole_session init = Some (trace_of resolving whole_session) \<and>
   length (trace_of resolving whole_session) = 11 \<and>
   map (drained \<circ> fst) (trace_of resolving whole_session) =
     [[], [], [], [], [], [], [0], [], [], [1], []] \<and>
   parentContext (heap (snd (trace_of resolving whole_session ! 9)) 1) = Some 0 \<and>
   1 \<in> set (pending (snd (trace_of resolving whole_session ! 6))) \<and>
   (\<exists>j \<le> 6. 0 \<in> set (drained (fst (trace_of resolving whole_session ! j)))) \<and>
   (\<exists>j < 9. 0 \<in> set (drained (fst (trace_of resolving whole_session ! j))) \<and>
       (exhausted (heap (snd (trace_of resolving whole_session ! j)) 0) \<or>
        0 \<in> set (emitted (trace_of resolving whole_session ! j))))"
proof -
  have len: "length (trace_of resolving whole_session) = 11"
    using run_length[OF whole_session_run] by (simp add: session_defs)
  have dr: "map (drained \<circ> fst) (trace_of resolving whole_session) =
     [[], [], [], [], [], [], [0], [], [], [1], []]"
    using arg_cong[OF whole_session_events, of "map drained"] by simp
  have d9: "drained (fst (trace_of resolving whole_session ! 9)) = [1]"
    using arg_cong[OF dr, of "\<lambda>xs. xs ! 9"] len by simp
  have p9: "parentContext (heap (snd (trace_of resolving whole_session ! 9)) 1) = Some 0"
    by (simp add: session_defs resolving_def call_defs)
  have p6: "parentContext (heap (snd (trace_of resolving whole_session ! 6)) 1) = Some 0"
    by (simp add: session_defs resolving_def call_defs)
  have pend: "pending (snd (trace_of resolving whole_session ! 6)) = [1]"
    by (simp add: session_defs resolving_def call_defs)
  have "\<exists>j \<le> 6. 0 \<in> set (drained (fst (trace_of resolving whole_session ! j)))"
    using child_pending_only_after_parent_drained[OF whole_session_run, of 6 1 0] len p6 pend
    by simp
  moreover have "\<exists>j < 9. 0 \<in> set (drained (fst (trace_of resolving whole_session ! j))) \<and>
       (exhausted (heap (snd (trace_of resolving whole_session ! j)) 0) \<or>
        0 \<in> set (emitted (trace_of resolving whole_session ! j)))"
    using child_pending_only_after_parent_drained[OF whole_session_run, of 9 1 0] len p9 d9
    by simp
  ultimately show ?thesis
    using whole_session_run len dr p9 pend by simp
qed

text \<open>
  C2 as stated fails for the child of an exhausted stream record.  The stream record S
  (record 0) is exhausted and completes.  The pass that drains S publishes its child K
  (record 1), skips S and returns nothing.  K completes, and the next pass returns the frame
  with the entry of K.  No pass has emitted an entry of S: the consumer sees the entry of
  the child and never one of its parent.
\<close>

theorem child_of_exhausted_parent_emitted_alone:
  "run resolving exhausted_parent_session init =
     Some (trace_of resolving exhausted_parent_session) \<and>
   parentContext (heap (state_after resolving exhausted_parent_session) 1) = Some 0 \<and>
   exhausted (heap (state_after resolving exhausted_parent_session) 0) \<and>
   map fst (trace_of resolving exhausted_parent_session) =
     [Created 0, Created 1, Quiet, Quiet, Quiet, Pulled [0] (Await 1), Quiet,
      Pulled [1] (Value \<lparr>incremental = Some [\<lparr>res_payload = Data (JObj [(''x'', JNum 1)]),
                                            res_path = [Key ''s'', Index 0],
                                            res_label = Some ''k'', res_errors = None\<rparr>],
                        res_hasNext = False\<rparr>)] \<and>
   map emitted (trace_of resolving exhausted_parent_session) =
     [[], [], [], [], [], [], [], [1]]"
  by (simp add: exhausted_parent_session_def optsS_def optsK_def trace_of_def resolving_def
        call_defs)

theorem hasNext_falls_at_most_once_witness:
  "run resolving whole_session init = Some (trace_of resolving whole_session) \<and>
   count_list whole_session PublishInitial \<le> 1 \<and>
   map (\<lambda>x. hasNext (snd x)) (trace_of resolving whole_session) =
     [False, False, True, True, True, True, True, True, True, False, False] \<and>
   falls (hasNext init # map (\<lambda>x. hasNext (snd x)) (trace_of resolving whole_session)) \<le> 1 \<and>
   falls (hasNext init # map (\<lambda>x. hasNext (snd x)) (trace_of resolving whole_session)) = 1 \<and>
   (\<exists>batch v. fst (trace_of resolving whole_session ! 9) = Pulled batch (Value v) \<and>
      \<not> res_hasNext v) \<and>
   pending (snd (trace_of resolving whole_session ! 9)) = [] \<and>
   fst (trace_of resolving whole_session ! 10) = Pulled [] Done"
proof -
  note T = hasNext_falls_at_most_once[OF whole_session_run whole_session_count]
  have len: "length (trace_of resolving whole_session) = 11"
    using run_length[OF whole_session_run] by (simp add: session_defs)
  have e9: "fst (trace_of resolving whole_session ! 9) =
      Pulled [1] (Value \<lparr>incremental = Some [\<lparr>res_payload = Items (Some [JNum 1]),
                                            res_path = [Key ''a'', Key ''items''],
                                            res_label = Some ''b'', res_errors = None\<rparr>],
                        res_hasNext = False\<rparr>)"
    using arg_cong[OF whole_session_events, of "\<lambda>xs. xs ! 9"] len by simp
  have e10: "fst (trace_of resolving whole_session ! 10) = Pulled [] Done"
    using arg_cong[OF whole_session_events, of "\<lambda>xs. xs ! 10"] len by simp
  have f: "falls (hasNext init # map (\<lambda>x. hasNext (snd x)) (trace_of resolving whole_session)) \<le> 1"
    using T by blast
  have f1: "falls (hasNext init # map (\<lambda>x. hasNext (snd x)) (trace_of resolving whole_session)) = 1"
    unfolding whole_session_hasNext by (simp add: hasNext_def init_def)
  have "pending (snd (trace_of resolving whole_session ! 9)) = []"
    using T e9 len by (simp add: session_defs resolving_def call_defs)
  then show ?thesis
    using whole_session_run whole_session_count whole_session_hasNext f f1 e9 e10 by simp
qed

theorem second_drain_repeats_nothing_witness:
  "run resolving child_first_session init = Some (trace_of resolving child_first_session) \<and>
   count_list child_first_session PublishInitial \<le> 1 \<and>
   batch_of (final init (trace_of resolving child_first_session)) = [0] \<and>
   batch_of (snd (next_pass (final init (trace_of resolving child_first_session)))) = [1] \<and>
   set (batch_of (final init (trace_of resolving child_first_session))) \<inter>
     set (batch_of (snd (next_pass (final init (trace_of resolving child_first_session))))) = {} \<and>
   batch_of (snd (next_pass (snd (next_pass
     (final init (trace_of resolving child_first_session)))))) = []"
proof -
  note T = second_drain_repeats_nothing[OF child_first_session_run child_first_session_count refl]
  have "set (batch_of (final init (trace_of resolving child_first_session))) \<inter>
     set (batch_of (snd (next_pass (final init (trace_of resolving child_first_session))))) = {}"
    using T by blast
  moreover have "batch_of (final init (trace_of resolving child_first_session)) = [0]"
    "batch_of (snd (next_pass (final init (trace_of resolving child_first_session)))) = [1]"
    "batch_of (snd (next_pass (snd (next_pass
       (final init (trace_of resolving child_first_session)))))) = []"
    by (simp_all add: session_defs resolving_def call_defs batch_of_def)
  ultimately show ?thesis
    using child_first_session_run child_first_session_count by simp
qed

text \<open>The session with a removal and repeated completion calls, evaluated.\<close>

lemmas removal_defs =
  removal_session_def optsA_def optsB_def optsZ_def trace_of_def resolving_def call_defs
  filter_eval

lemma removal_session_run:
  "run resolving removal_session init = Some (trace_of resolving removal_session)"
  by (simp add: removal_defs)

lemma removal_session_count: "count_list removal_session PublishInitial \<le> 1"
  by (simp add: removal_session_def)

theorem record_emitted_at_most_once_witness:
  "run resolving removal_session init = Some (trace_of resolving removal_session) \<and>
   count_list removal_session PublishInitial \<le> 1 \<and>
   removal_session ! 6 = CompleteDeferredFragmentRecord 0 JNull \<and>
   removal_session ! 7 = Filter [Key ''a''] None \<and>
   removal_session ! 8 = CompleteStreamItemsRecord 1 (Some [JNum 1]) \<and>
   pending (snd (trace_of resolving removal_session ! 6)) = [2, 1] \<and>
   pruned (final init (take 7 (trace_of resolving removal_session))) [Key ''a''] None = {0, 1} \<and>
   1 \<notin> set (pending (snd (trace_of resolving removal_session ! 8))) \<and>
   released (snd (trace_of resolving removal_session ! 8)) =
     released (snd (trace_of resolving removal_session ! 7)) \<and>
   map emitted (trace_of resolving removal_session) =
     [[], [], [], [], [], [0], [], [], [], [], [2], []] \<and>
   distinct (concat (map emitted (trace_of resolving removal_session)))"
proof -
  note T = record_emitted_at_most_once[OF removal_session_run removal_session_count]
  have len: "length (trace_of resolving removal_session) = 12"
    using run_length[OF removal_session_run] by (simp add: removal_session_def)
  have em: "map emitted (trace_of resolving removal_session) =
     [[], [], [], [], [], [0], [], [], [], [], [2], []]"
    by (simp add: removal_defs)
  have d: "distinct (concat (map emitted (trace_of resolving removal_session)))"
    using T by blast
  have c: "removal_session ! 7 = Filter [Key ''a''] None"
    by (simp add: removal_session_def)
  have vals: "pending (snd (trace_of resolving removal_session ! 6)) = [2, 1]"
    "released (snd (trace_of resolving removal_session ! 8)) =
       released (snd (trace_of resolving removal_session ! 7))"
    by (simp_all add: removal_defs)
  have st: "initialChildren (final init (take 7 (trace_of resolving removal_session))) = [0, 2]"
    "children (heap (final init (take 7 (trace_of resolving removal_session))) 0) = [1]"
    "children (heap (final init (take 7 (trace_of resolving removal_session))) (Suc 0)) = []"
    "children (heap (final init (take 7 (trace_of resolving removal_session))) 2) = []"
    "path (heap (final init (take 7 (trace_of resolving removal_session))) 0) = [Key ''a'']"
    "path (heap (final init (take 7 (trace_of resolving removal_session))) (Suc 0)) =
       [Key ''a'', Key ''items'']"
    "path (heap (final init (take 7 (trace_of resolving removal_session))) 2) = [Key ''z'']"
    by (simp_all add: removal_defs)
  have pr: "pruned (final init (take 7 (trace_of resolving removal_session))) [Key ''a''] None = {0, 1}"
    by (auto simp: pruned_def origin_children_def st descendants_Cons)
  have "1 \<in> pruned (final init (take 7 (trace_of resolving removal_session))) [Key ''a''] None"
    unfolding pr by simp
  moreover note T[THEN conjunct2, THEN conjunct2, THEN conjunct2, THEN conjunct2, rule_format,
      of 7 "[Key ''a'']" None 1 8]
  ultimately have out: "1 \<notin> set (pending (snd (trace_of resolving removal_session ! 8)))"
    using c len by simp
  show ?thesis
    using removal_session_run removal_session_count em d c vals pr out
    by (simp add: removal_session_def)
qed

text \<open>
  Why the sessions above have at most one \<^verbatim>\<open>publishInitial\<close>: a second call publishes the
  children of the initial result again, and a record that was drained is drained once more
  (here A, while a second record keeps the iteration going).
\<close>

lemma publishInitial_twice_republishes:
  "map (drained \<circ> fst)
     (trace_of resolving
        [PrepareNewDeferredFragmentRecord optsA, PrepareNewDeferredFragmentRecord optsZ,
         CompleteDeferredFragmentRecord 0 JNull, PublishInitial, Next, PublishInitial, Next]) =
   [[], [], [], [], [0], [], [0]]"
  by (simp add: session_defs optsZ_def resolving_def call_defs)

end
